theory Spec2Isabelle
  imports Complex_Main
begin

section \<open>Radiosonde cross-section example: the two interpolation functions\<close>

text \<open>
  The notebook defines \<^verbatim>\<open>vertical_interpolate\<close> and \<^verbatim>\<open>radisonde_cross_section\<close>.
  NumPy's double-precision arrays are modelled as lists of reals: rounding is not
  modelled, and neither are \<^verbatim>\<open>nan\<close> and \<^verbatim>\<open>inf\<close>. Python exceptions are values of
  the type \<open>error\<close>; a function that may raise returns \<open>error + 'a\<close>. \<open>LibraryError\<close>
  stands for an exception of a library's own, such as Qhull's from \<^verbatim>\<open>griddata\<close>.
\<close>

datatype error =
  IndexError | KeyError | AttributeError | ValueError | ZeroDivisionError | LibraryError

subsection \<open>NumPy primitives used by the notebook\<close>

text \<open>
  \<^verbatim>\<open>np.log\<close>, elementwise. On positive arguments it is the natural logarithm. NumPy
  returns \<^verbatim>\<open>-inf\<close> at 0 and \<^verbatim>\<open>nan\<close> below 0 (with a warning, no exception), which
  have no real counterpart: statements that depend on the value of a logarithm
  assume positive pressures.
\<close>

definition np_log :: "real list \<Rightarrow> real list" where
  "np_log xs = map ln xs"

text \<open>
  Python indexing \<^verbatim>\<open>xs[i]\<close> with a possibly negative index; out of range raises
  \<^verbatim>\<open>IndexError\<close>.
\<close>

definition getitem :: "'a list \<Rightarrow> int \<Rightarrow> error + 'a" where
  "getitem xs i =
     (if 0 \<le> i \<and> i < int (length xs) then Inr (xs ! nat i)
      else if i < 0 \<and> - int (length xs) \<le> i then Inr (xs ! nat (int (length xs) + i))
      else Inl IndexError)"

text \<open>
  \<^verbatim>\<open>np.interp(x, xp, fp)\<close> with the default \<^verbatim>\<open>left = fp[0]\<close> and
  \<^verbatim>\<open>right = fp[-1]\<close>. The library raises \<^verbatim>\<open>ValueError\<close> when the sample points are
  empty or \<^verbatim>\<open>fp\<close> and \<^verbatim>\<open>xp\<close> differ in length. For one sample point the result is
  that point's value. Otherwise the library locates the index \<open>j\<close> with
  \<open>xp[j] \<le> x < xp[j+1]\<close> (a search that presupposes increasing \<open>xp\<close>; the model
  scans from the left, which finds the same index on increasing \<open>xp\<close>), returns
  \<open>fp[j]\<close> when \<open>xp[j] = x\<close> and \<open>slope * (x - xp[j]) + fp[j]\<close> otherwise.
\<close>

fun interp_seg :: "(real \<times> real) list \<Rightarrow> real \<Rightarrow> real" where
  "interp_seg [] x = 0"
| "interp_seg [(x0, y0)] x = y0"
| "interp_seg ((x0, y0) # (x1, y1) # ps) x =
     (if x < x1
      then (if x0 = x then y0 else (y1 - y0) / (x1 - x0) * (x - x0) + y0)
      else interp_seg ((x1, y1) # ps) x)"

definition interp_point :: "real list \<Rightarrow> real list \<Rightarrow> real \<Rightarrow> real" where
  "interp_point xp fp x =
     (if x < hd xp then hd fp
      else if last xp < x then last fp
      else interp_seg (zip xp fp) x)"

definition np_interp :: "real list \<Rightarrow> real list \<Rightarrow> real list \<Rightarrow> error + real list" where
  "np_interp x xp fp =
     (if xp = [] then Inl ValueError
      else if length fp \<noteq> length xp then Inl ValueError
      else Inr (map (interp_point xp fp) x))"

text \<open>
  Assignment through a boolean mask, \<^verbatim>\<open>a[mask] = v\<close> with a scalar \<open>v\<close>: the
  positions where the mask holds receive \<open>v\<close>. The masks of the notebook have the
  length of the array by construction.
\<close>

definition assign_mask :: "bool list \<Rightarrow> 'a \<Rightarrow> 'a list \<Rightarrow> 'a list" where
  "assign_mask msk v xs = map (\<lambda>(m, x). if m then v else x) (zip msk xs)"

subsection \<open>Vertical interpolation\<close>

text \<open>
  \<^verbatim>\<open>
  def vertical_interpolate(vcoord_data, interp_var, interp_levels):
      lnp = np.log(vcoord_data)
      lnp_intervals = np.log(interp_levels)
      interp_data = np.interp(lnp_intervals[::-1], lnp[::-1], interp_var[::-1])[::-1]
      mask_low = interp_levels > vcoord_data[0]
      mask_high = interp_levels < vcoord_data[-1]
      interp_data[mask_low] = interp_var[0]
      interp_data[mask_high] = interp_var[-1]
      return interp_data
  \<close>
\<close>

definition vertical_interpolate :: "real list \<Rightarrow> real list \<Rightarrow> real list \<Rightarrow> error + real list" where
  "vertical_interpolate vcoord_data interp_var interp_levels =
     (let lnp = np_log vcoord_data;
          lnp_intervals = np_log interp_levels
      in case np_interp (rev lnp_intervals) (rev lnp) (rev interp_var) of
           Inl e \<Rightarrow> Inl e
         | Inr r \<Rightarrow>
             (let interp_data = rev r
              in case getitem vcoord_data 0 of
                   Inl e \<Rightarrow> Inl e
                 | Inr p0 \<Rightarrow>
                     (let mask_low = map (\<lambda>l. p0 < l) interp_levels
                      in case getitem vcoord_data (- 1) of
                           Inl e \<Rightarrow> Inl e
                         | Inr pn \<Rightarrow>
                             (let mask_high = map (\<lambda>l. l < pn) interp_levels
                              in case getitem interp_var 0 of
                                   Inl e \<Rightarrow> Inl e
                                 | Inr v0 \<Rightarrow>
                                     (let interp_data = assign_mask mask_low v0 interp_data
                                      in case getitem interp_var (- 1) of
                                           Inl e \<Rightarrow> Inl e
                                         | Inr vn \<Rightarrow>
                                             Inr (assign_mask mask_high vn interp_data))))))"

text \<open>Strictly decreasing pressures, as a profile reports them from the surface up.\<close>

definition strictly_decreasing :: "real list \<Rightarrow> bool" where
  "strictly_decreasing ps = sorted_wrt (\<lambda>a b. b < a) ps"

text \<open>
  The profile's pressures are positive (hPa), so that \<^verbatim>\<open>np.log\<close> is the real logarithm.
\<close>

definition positive_levels :: "real list \<Rightarrow> bool" where
  "positive_levels ps = list_all (\<lambda>p. 0 < p) ps"

text \<open>
  The specification's words for the in-range case: linear interpolation in log-pressure
  between two observed samples \<open>a = (p\<^sub>a, v\<^sub>a)\<close> and \<open>b = (p\<^sub>b, v\<^sub>b)\<close>, evaluated at the
  pressure \<open>p\<close>. It is the reference the code is compared with, not part of the code.
\<close>

definition log_linear :: "real \<times> real \<Rightarrow> real \<times> real \<Rightarrow> real \<Rightarrow> real" where
  "log_linear a b p =
     snd a + (snd b - snd a) * ((ln p - ln (fst a)) / (ln (fst b) - ln (fst a)))"

subsection \<open>More NumPy primitives\<close>

text \<open>
  \<^verbatim>\<open>np.arange(start, stop, step)\<close> on Python integers: \<open>\<lceil>(stop - start) / step\<rceil>\<close> values
  (none when that is not positive), starting at \<open>start\<close>; a zero step raises.
\<close>

definition arange_len :: "int \<Rightarrow> int \<Rightarrow> int \<Rightarrow> nat" where
  "arange_len start stop step =
     (if 0 < step then nat ((stop - start + step - 1) div step)
      else nat ((start - stop + (- step) - 1) div (- step)))"

definition np_arange :: "int \<Rightarrow> int \<Rightarrow> int \<Rightarrow> error + int list" where
  "np_arange start stop step =
     (if step = 0 then Inl ZeroDivisionError
      else Inr (map (\<lambda>k. start + int k * step) [0..<arange_len start stop step]))"

text \<open>
  \<^verbatim>\<open>np.linspace(a, b, num)\<close> with the end point included: \<open>num\<close> evenly spaced samples,
  the last one set to \<open>b\<close>.
\<close>

definition np_linspace :: "real \<Rightarrow> real \<Rightarrow> nat \<Rightarrow> real list" where
  "np_linspace a b num =
     (if num = 0 then []
      else if num = 1 then [a]
      else map (\<lambda>k. a + real k * ((b - a) / real (num - 1))) [0..<num - 1] @ [b])"

text \<open>
  \<^verbatim>\<open>np.meshgrid(a, b)\<close> returns two arrays of shape \<open>(len(b), len(a))\<close>: the first
  repeats \<open>a\<close> in every row, the second repeats \<open>b[i]\<close> along row \<open>i\<close>. \<^verbatim>\<open>flatten\<close> is
  row-major.
\<close>

definition np_meshgrid :: "real list \<Rightarrow> real list \<Rightarrow> real list list \<times> real list list" where
  "np_meshgrid a b = (replicate (length b) a, map (\<lambda>y. replicate (length a) y) b)"

definition flatten :: "'a list list \<Rightarrow> 'a list" where
  "flatten rows = concat rows"

text \<open>
  \<^verbatim>\<open>a[:] = r\<close> for an array \<open>a\<close> of shape \<open>(n, m)\<close> and a two-dimensional \<open>r\<close>: NumPy
  broadcasts \<open>r\<close>, whose every dimension must be the target's or 1, and raises
  \<^verbatim>\<open>ValueError\<close> otherwise. The array keeps its shape.
\<close>

definition broadcastable :: "nat \<Rightarrow> nat \<Rightarrow> 'a list list \<Rightarrow> bool" where
  "broadcastable n m r =
     ((length r = n \<or> length r = 1) \<and>
      (list_all (\<lambda>row. length row = m) r \<or> list_all (\<lambda>row. length row = 1) r))"

definition stretch :: "nat \<Rightarrow> 'a list \<Rightarrow> 'a list" where
  "stretch k xs = (if length xs = k then xs else replicate k (hd xs))"

definition assign_all :: "nat \<Rightarrow> nat \<Rightarrow> 'a list list \<Rightarrow> error + 'a list list" where
  "assign_all n m r =
     (if broadcastable n m r then Inr (stretch n (map (stretch m) r)) else Inl ValueError)"

subsection \<open>The cross-section builder\<close>

text \<open>
  A sounding is a pandas data frame: named columns in order. Only numeric columns are
  modelled. \<^verbatim>\<open>df[key]\<close> raises \<^verbatim>\<open>KeyError\<close> for a missing column;
  \<^verbatim>\<open>df.latitude[0]\<close> is the first entry of the column \<^verbatim>\<open>latitude\<close>: the attribute
  access raises \<^verbatim>\<open>AttributeError\<close> when there is no such column, the label \<^verbatim>\<open>0\<close>
  raises \<^verbatim>\<open>KeyError\<close> when the column is empty.
\<close>

type_synonym dataframe = "(string \<times> real list) list"

definition column :: "dataframe \<Rightarrow> string \<Rightarrow> error + real list" where
  "column df key = (case map_of df key of None \<Rightarrow> Inl KeyError | Some c \<Rightarrow> Inr c)"

definition first_of :: "dataframe \<Rightarrow> string \<Rightarrow> error + real" where
  "first_of df key =
     (case map_of df key of
        None \<Rightarrow> Inl AttributeError
      | Some c \<Rightarrow> (case c of [] \<Rightarrow> Inl KeyError | v # _ \<Rightarrow> Inr v))"

text \<open>\<^verbatim>\<open>dict.fromkeys(keys)\<close>: the keys in order of first occurrence.\<close>

definition fromkeys :: "string list \<Rightarrow> string list" where
  "fromkeys ks = foldl (\<lambda>acc k. if k \<in> set acc then acc else acc @ [k]) [] ks"

text \<open>The three lists the builder appends to while it walks the stations.\<close>

record site_lists =
  lats :: "real list"
  lons :: "real list"
  elev :: "real list"

text \<open>
  The body of the inner loop for one station: the row written to
  \<^verbatim>\<open>tmp_grid[key][loc, :]\<close>, and the lists after the appends.
\<close>

definition station_row ::
  "(string \<rightharpoonup> dataframe) \<Rightarrow> real list \<Rightarrow> string \<Rightarrow> site_lists \<Rightarrow> string
     \<Rightarrow> error + site_lists \<times> real list" where
  "station_row data vertical_levels key sl station =
     (case data station of
        None \<Rightarrow> Inl KeyError
      | Some df \<Rightarrow>
          if key = ''pressure'' then
            (case first_of df ''latitude'' of
               Inl e \<Rightarrow> Inl e
             | Inr la \<Rightarrow>
                 (case first_of df ''longitude'' of
                    Inl e \<Rightarrow> Inl e
                  | Inr lo \<Rightarrow>
                      (case first_of df ''elevation'' of
                         Inl e \<Rightarrow> Inl e
                       | Inr el \<Rightarrow>
                           Inr (\<lparr>lats = lats sl @ [la], lons = lons sl @ [lo],
                                 elev = elev sl @ [el]\<rparr>, vertical_levels))))
          else
            (case column df ''pressure'' of
               Inl e \<Rightarrow> Inl e
             | Inr p \<Rightarrow>
                 (case column df key of
                    Inl e \<Rightarrow> Inl e
                  | Inr v \<Rightarrow>
                      (case vertical_interpolate p v vertical_levels of
                         Inl e \<Rightarrow> Inl e
                       | Inr row \<Rightarrow> Inr (sl, row)))))"

text \<open>The inner loop, \<^verbatim>\<open>for station, loc in zip(stns, range(nstns))\<close>: one row per station.\<close>

fun station_rows ::
  "(string \<rightharpoonup> dataframe) \<Rightarrow> real list \<Rightarrow> string \<Rightarrow> site_lists \<Rightarrow> string list
     \<Rightarrow> error + site_lists \<times> real list list" where
  "station_rows data vertical_levels key sl [] = Inr (sl, [])"
| "station_rows data vertical_levels key sl (station # rest) =
     (case station_row data vertical_levels key sl station of
        Inl e \<Rightarrow> Inl e
      | Inr (sl', row) \<Rightarrow>
          (case station_rows data vertical_levels key sl' rest of
             Inl e \<Rightarrow> Inl e
           | Inr (sl'', rows) \<Rightarrow> Inr (sl'', row # rows)))"

text \<open>The outer loop, \<^verbatim>\<open>for key in tmp_grid.keys()\<close>: \<^verbatim>\<open>tmp_grid\<close>, key by key.\<close>

fun interpolate_keys ::
  "(string \<rightharpoonup> dataframe) \<Rightarrow> real list \<Rightarrow> string list \<Rightarrow> site_lists \<Rightarrow> string list
     \<Rightarrow> error + site_lists \<times> (string \<times> real list list) list" where
  "interpolate_keys data vertical_levels stns sl [] = Inr (sl, [])"
| "interpolate_keys data vertical_levels stns sl (key # keys) =
     (case station_rows data vertical_levels key sl stns of
        Inl e \<Rightarrow> Inl e
      | Inr (sl', rows) \<Rightarrow>
          (case interpolate_keys data vertical_levels stns sl' keys of
             Inl e \<Rightarrow> Inl e
           | Inr (sl'', tmp_grid) \<Rightarrow> Inr (sl'', (key, rows) # tmp_grid)))"

text \<open>
  Three library functions are parameters of the model, since their code is outside the
  repository:
  \<^item> \<open>geod_inv lon1 lat1 lon2 lat2\<close>, the distance that \<^verbatim>\<open>Geod(ellps='sphere').inv\<close>
    returns for one pair of points;
  \<^item> \<open>height_to_pressure_std\<close>, MetPy's standard-atmosphere pressure at a height;
  \<^item> \<open>griddata points values xi\<close>, SciPy's scattered-data interpolation, which may
    raise.
\<close>

type_synonym geod = "real \<Rightarrow> real \<Rightarrow> real \<Rightarrow> real \<Rightarrow> real"

type_synonym griddata =
  "real list \<times> real list \<Rightarrow> real list \<Rightarrow> real list list \<times> real list list
     \<Rightarrow> error + real list list"

text \<open>\<^verbatim>\<open>g.inv(lons1, lats1, lons2, lats2)\<close> on four lists, element by element.\<close>

definition inv_all :: "geod \<Rightarrow> real list \<Rightarrow> real list \<Rightarrow> real list \<Rightarrow> real list \<Rightarrow> real list" where
  "inv_all geod_inv lons1 lats1 lons2 lats2 =
     map (\<lambda>((lon1, lat1), (lon2, lat2)). geod_inv lon1 lat1 lon2 lat2)
         (zip (zip lons1 lats1) (zip lons2 lats2))"

record cross_section =
  grid_data :: "(string \<times> real list list) list"
  obs_distance :: "real list"
  x_grid :: "real list list"
  p_grid :: "real list list"
  elevation :: "real list"

text \<open>
  The last loop, \<^verbatim>\<open>for key in grid.keys()\<close>: \<^verbatim>\<open>grid[key] = np.empty((nx, plevs))\<close>
  followed by \<^verbatim>\<open>grid[key][:] = griddata(...)\<close>. The keys of \<^verbatim>\<open>grid\<close> are those of
  \<^verbatim>\<open>tmp_grid\<close>, in the same order.
\<close>

fun grid_keys ::
  "griddata \<Rightarrow> real list list \<Rightarrow> real list list \<Rightarrow> real list list \<Rightarrow> real list list
     \<Rightarrow> nat \<Rightarrow> nat \<Rightarrow> (string \<times> real list list) list
     \<Rightarrow> error + (string \<times> real list list) list" where
  "grid_keys griddata ddist pdist xx pp nx plevs [] = Inr []"
| "grid_keys griddata ddist pdist xx pp nx plevs ((key, rows) # rest) =
     (case griddata (flatten ddist, flatten pdist) (flatten rows) (xx, pp) of
        Inl e \<Rightarrow> Inl e
      | Inr r \<Rightarrow>
          (case assign_all nx plevs r of
             Inl e \<Rightarrow> Inl e
           | Inr g \<Rightarrow>
               (case grid_keys griddata ddist pdist xx pp nx plevs rest of
                  Inl e \<Rightarrow> Inl e
                | Inr grid \<Rightarrow> Inr ((key, g) # grid))))"

text \<open>
  The second half of the body, from the distance computation to the returned dictionary,
  given the site lists and \<^verbatim>\<open>tmp_grid\<close> that the interpolation loop produced.
\<close>

definition assemble ::
  "geod \<Rightarrow> (real \<Rightarrow> real) \<Rightarrow> griddata \<Rightarrow> real list \<Rightarrow> nat \<Rightarrow> site_lists
     \<Rightarrow> (string \<times> real list list) list \<Rightarrow> error + cross_section" where
  "assemble geod_inv height_to_pressure_std griddata vertical_levels nstns sl tmp_grid =
     (case getitem (lons sl) 0 of
        Inl e \<Rightarrow> Inl e
      | Inr lon0 \<Rightarrow>
          (case getitem (lats sl) 0 of
             Inl e \<Rightarrow> Inl e
           | Inr lat0 \<Rightarrow>
               (let dist = inv_all geod_inv (replicate nstns lon0) (replicate nstns lat0)
                             (lons sl) (lats sl);
                    ground_elevation = map height_to_pressure_std (elev sl)
                in case getitem dist 0 of
                     Inl e \<Rightarrow> Inl e
                   | Inr d0 \<Rightarrow>
                       (case getitem dist (- 1) of
                          Inl e \<Rightarrow> Inl e
                        | Inr dn \<Rightarrow>
                            (let x = np_linspace d0 dn 100;
                                 nx = length x;
                                 (pp, xx) = np_meshgrid vertical_levels x;
                                 (pdist, ddist) = np_meshgrid vertical_levels dist
                             in case grid_keys griddata ddist pdist xx pp nx
                                       (length vertical_levels) tmp_grid of
                                  Inl e \<Rightarrow> Inl e
                                | Inr grid \<Rightarrow>
                                    Inr \<lparr>grid_data = grid, obs_distance = dist,
                                         x_grid = xx, p_grid = pp,
                                         elevation = ground_elevation\<rparr>)))))"

text \<open>
  \<^verbatim>\<open>radisonde_cross_section(stns, data, start, end, step)\<close>: the vertical grid, the
  keys (the first eight columns of the first station's frame), the interpolation loop,
  then the assembly above.
\<close>

definition radisonde_cross_section ::
  "geod \<Rightarrow> (real \<Rightarrow> real) \<Rightarrow> griddata \<Rightarrow> string list \<Rightarrow> (string \<rightharpoonup> dataframe)
     \<Rightarrow> int \<Rightarrow> int \<Rightarrow> int \<Rightarrow> error + cross_section" where
  "radisonde_cross_section geod_inv height_to_pressure_std griddata stns data start endp step =
     (case np_arange start (endp - 1) (- step) of
        Inl e \<Rightarrow> Inl e
      | Inr levels \<Rightarrow>
          (let vertical_levels = map real_of_int levels;
               nstns = length stns
           in case getitem stns 0 of
                Inl e \<Rightarrow> Inl e
              | Inr stn0 \<Rightarrow>
                  (case data stn0 of
                     None \<Rightarrow> Inl KeyError
                   | Some df0 \<Rightarrow>
                       (let keys = take 8 (map fst df0)
                        in case interpolate_keys data vertical_levels stns
                                  \<lparr>lats = [], lons = [], elev = []\<rparr> (fromkeys keys) of
                             Inl e \<Rightarrow> Inl e
                           | Inr (sl, tmp_grid) \<Rightarrow>
                               assemble geod_inv height_to_pressure_std griddata
                                 vertical_levels nstns sl tmp_grid))))"

subsection \<open>Great-circle distance\<close>

text \<open>
  Modelled from the spec: pyproj's \<^verbatim>\<open>Geod(ellps='sphere').inv\<close> is outside the repository.
  The specification describes what the builder takes from it as the great-circle distance
  between two stations on a spherical Earth, with angles in degrees converted to radians
  inside the computation. The definition is the spherical law of cosines on the sphere of
  radius 6370997 m.
\<close>

definition radians :: "real \<Rightarrow> real" where
  "radians d = d * pi / 180"

definition earth_radius :: real where
  "earth_radius = 6370997"

definition great_circle_distance :: geod where
  "great_circle_distance lon1 lat1 lon2 lat2 =
     earth_radius *
       arccos (sin (radians lat1) * sin (radians lat2) +
               cos (radians lat1) * cos (radians lat2) * cos (radians lon2 - radians lon1))"

subsection \<open>Sample soundings\<close>

text \<open>
  Three small soundings on the equator, at longitudes 0, 10 and 5 degrees, and a stand-in
  for \<^verbatim>\<open>griddata\<close> that gives every mesh point the first scattered value. They are
  the concrete inputs of the examples below.
\<close>

definition sounding :: "real list \<Rightarrow> real list \<Rightarrow> real \<Rightarrow> real \<Rightarrow> real \<Rightarrow> dataframe" where
  "sounding p t la lo el =
     [(''pressure'', p), (''temperature'', t),
      (''latitude'', map (\<lambda>_. la) p), (''longitude'', map (\<lambda>_. lo) p),
      (''elevation'', map (\<lambda>_. el) p)]"

definition example_soundings :: "string \<rightharpoonup> dataframe" where
  "example_soundings =
     [''AAA'' \<mapsto> sounding [1000, 500] [20, - 10] 0 0 100,
      ''BBB'' \<mapsto> sounding [950, 700, 400] [18, 4, - 20] 0 10 300,
      ''CCC'' \<mapsto> sounding [990, 600] [19, - 2] 0 5 200]"

text \<open>
  A fourth sounding, at latitude 5 and longitude 5, off the equator: with AAA and BBB it
  makes a path that leaves AAA eastwards and then turns back to the north-west.
\<close>

definition bent_path_soundings :: "string \<rightharpoonup> dataframe" where
  "bent_path_soundings = example_soundings(''DDD'' \<mapsto> sounding [980, 650] [17, 1] 5 5 250)"

definition flat_griddata :: griddata where
  "flat_griddata points vals xi = Inr (map (map (\<lambda>_. hd vals)) (fst xi))"

subsection \<open>The specification's words for the per-station columns\<close>

text \<open>
  Step 1 of the specification: apply the vertical interpolator to a station's pressure
  samples and its samples of a variable. \<open>site_value\<close> is the first entry of a station's
  column, as used for latitude, longitude and elevation.
\<close>

definition interpolated_column ::
  "(string \<rightharpoonup> dataframe) \<Rightarrow> string \<Rightarrow> real list \<Rightarrow> string \<Rightarrow> error + real list" where
  "interpolated_column data key vertical_levels station =
     (case data station of
        None \<Rightarrow> Inl KeyError
      | Some df \<Rightarrow>
          (case column df ''pressure'' of
             Inl e \<Rightarrow> Inl e
           | Inr p \<Rightarrow>
               (case column df key of
                  Inl e \<Rightarrow> Inl e
                | Inr v \<Rightarrow> vertical_interpolate p v vertical_levels)))"

definition site_value :: "(string \<rightharpoonup> dataframe) \<Rightarrow> string \<Rightarrow> string \<Rightarrow> error + real" where
  "site_value data key station =
     (case data station of None \<Rightarrow> Inl KeyError | Some df \<Rightarrow> first_of df key)"

subsection \<open>The specification's words for the path\<close>

text \<open>
  The specification takes the ordered station list to define the path of the cross-section:
  the path connects the stations, each to the next, by great-circle legs. \<open>coordinates\<close>
  are the (longitude, latitude) pairs of the stations in the order of the list, and
  \<open>leg_length\<close> is the distance between two such pairs. A point lies on the leg from
  \<open>a\<close> to \<open>b\<close> when its distances to the two ends add up to the length of the leg.

  The stations are supplied in path order when the path meets each of them once and in the
  order of the list: every leg has positive length, and no station lies on a leg between
  two other stations. The path is straight from the first station when every station lies
  on the great-circle arc from the first station to its successor.
\<close>

definition coordinates :: "(string \<rightharpoonup> dataframe) \<Rightarrow> string list \<Rightarrow> (real \<times> real) list" where
  "coordinates data stns =
     concat (map (\<lambda>s. case (site_value data ''longitude'' s, site_value data ''latitude'' s) of
                         (Inr lon, Inr lat) \<Rightarrow> [(lon, lat)]
                       | _ \<Rightarrow> []) stns)"

definition leg_length :: "geod \<Rightarrow> real \<times> real \<Rightarrow> real \<times> real \<Rightarrow> real" where
  "leg_length geod_inv a b = geod_inv (fst a) (snd a) (fst b) (snd b)"

definition on_leg :: "geod \<Rightarrow> real \<times> real \<Rightarrow> real \<times> real \<Rightarrow> real \<times> real \<Rightarrow> bool" where
  "on_leg geod_inv a b c =
     (leg_length geod_inv a c + leg_length geod_inv c b = leg_length geod_inv a b)"

definition in_path_order :: "geod \<Rightarrow> (real \<times> real) list \<Rightarrow> bool" where
  "in_path_order geod_inv ps =
     list_all (\<lambda>k. 0 < leg_length geod_inv (ps ! k) (ps ! Suc k) \<and>
                   list_all (\<lambda>c. \<not> on_leg geod_inv (ps ! k) (ps ! Suc k) c)
                     (take k ps @ drop (k + 2) ps))
       [0 ..< length ps - 1]"

definition straight_from_first :: "geod \<Rightarrow> (real \<times> real) list \<Rightarrow> bool" where
  "straight_from_first geod_inv ps =
     list_all (\<lambda>k. on_leg geod_inv (ps ! 0) (ps ! Suc k) (ps ! k)) [0 ..< length ps - 1]"

section \<open>The same functions on a store\<close>

text \<open>
  NumPy arrays are mutable objects and slices such as \<^verbatim>\<open>a[::-1]\<close> are views that share
  the buffer of \<open>a\<close>. To say what a call leaves unchanged, the functions are modelled a
  second time as programs on a store: a list of buffers, the address of a buffer being its
  position, so that an allocation appends a buffer and can never return an address in
  use. A program returns its result or the exception raised, and the store it leaves.
  A buffer is one-dimensional (\<open>Vec\<close>) or two-dimensional, row by row (\<open>Mat\<close>). Boolean
  masks, the station list, the dictionary of the soundings (which the code only reads) and
  the Python lists local to the builder are kept as values.
\<close>

datatype buffer = Vec "real list" | Mat "real list list"

type_synonym heap = "buffer list"

record ndarray =
  base :: nat
  reversed :: bool

type_synonym 'a prog = "heap \<Rightarrow> (error + 'a) \<times> heap"

definition return :: "'a \<Rightarrow> 'a prog" where
  "return x h = (Inr x, h)"

definition lift :: "error + 'a \<Rightarrow> 'a prog" where
  "lift r h = (r, h)"

definition and_then :: "'a prog \<Rightarrow> ('a \<Rightarrow> 'b prog) \<Rightarrow> 'b prog" where
  "and_then m f h = (case m h of (Inl e, h') \<Rightarrow> (Inl e, h') | (Inr x, h') \<Rightarrow> f x h')"

definition vec :: "heap \<Rightarrow> nat \<Rightarrow> real list" where
  "vec h a = (case h ! a of Vec xs \<Rightarrow> xs | Mat rows \<Rightarrow> [])"

definition mat :: "heap \<Rightarrow> nat \<Rightarrow> real list list" where
  "mat h a = (case h ! a of Vec xs \<Rightarrow> [] | Mat rows \<Rightarrow> rows)"

text \<open>The elements an array object shows: its buffer, back to front for a reversed view.\<close>

definition contents :: "heap \<Rightarrow> ndarray \<Rightarrow> real list" where
  "contents h a = (if reversed a then rev (vec h (base a)) else vec h (base a))"

definition read :: "ndarray \<Rightarrow> real list prog" where
  "read a h = (Inr (contents h a), h)"

definition new_array :: "real list \<Rightarrow> ndarray prog" where
  "new_array xs h = (Inr \<lparr>base = length h, reversed = False\<rparr>, h @ [Vec xs])"

definition new_matrix :: "real list list \<Rightarrow> nat prog" where
  "new_matrix rows h = (Inr (length h), h @ [Mat rows])"

text \<open>\<^verbatim>\<open>a[::-1]\<close>: a view of the same buffer.\<close>

definition flip :: "ndarray \<Rightarrow> ndarray" where
  "flip a = a\<lparr>reversed := \<not> reversed a\<rparr>"

text \<open>\<^verbatim>\<open>a[mask] = v\<close> writes through the view into the buffer of \<open>a\<close>.\<close>

definition put_mask :: "ndarray \<Rightarrow> bool list \<Rightarrow> real \<Rightarrow> unit prog" where
  "put_mask a msk v h =
     (let new = assign_mask msk v (contents h a)
      in (Inr (), h[base a := Vec (if reversed a then rev new else new)]))"

definition np_log_h :: "ndarray \<Rightarrow> ndarray prog" where
  "np_log_h a = and_then (read a) (\<lambda>xs. new_array (np_log xs))"

definition np_interp_h :: "ndarray \<Rightarrow> ndarray \<Rightarrow> ndarray \<Rightarrow> ndarray prog" where
  "np_interp_h x xp fp =
     and_then (read x) (\<lambda>xs.
     and_then (read xp) (\<lambda>xps.
     and_then (read fp) (\<lambda>fps.
     and_then (lift (np_interp xs xps fps)) new_array)))"

definition item :: "ndarray \<Rightarrow> int \<Rightarrow> real prog" where
  "item a i = and_then (read a) (\<lambda>xs. lift (getitem xs i))"

definition levels_above :: "ndarray \<Rightarrow> real \<Rightarrow> bool list prog" where
  "levels_above a p = and_then (read a) (\<lambda>xs. return (map (\<lambda>l. p < l) xs))"

definition levels_below :: "ndarray \<Rightarrow> real \<Rightarrow> bool list prog" where
  "levels_below a p = and_then (read a) (\<lambda>xs. return (map (\<lambda>l. l < p) xs))"

definition vertical_interpolate_h :: "ndarray \<Rightarrow> ndarray \<Rightarrow> ndarray \<Rightarrow> ndarray prog" where
  "vertical_interpolate_h vcoord_data interp_var interp_levels =
     and_then (np_log_h vcoord_data) (\<lambda>lnp.
     and_then (np_log_h interp_levels) (\<lambda>lnp_intervals.
     and_then (np_interp_h (flip lnp_intervals) (flip lnp) (flip interp_var)) (\<lambda>r.
     let interp_data = flip r in
     and_then (item vcoord_data 0) (\<lambda>p0.
     and_then (levels_above interp_levels p0) (\<lambda>mask_low.
     and_then (item vcoord_data (- 1)) (\<lambda>pn.
     and_then (levels_below interp_levels pn) (\<lambda>mask_high.
     and_then (item interp_var 0) (\<lambda>v0.
     and_then (put_mask interp_data mask_low v0) (\<lambda>_.
     and_then (item interp_var (- 1)) (\<lambda>vn.
     and_then (put_mask interp_data mask_high vn) (\<lambda>_.
     return interp_data)))))))))))"

subsection \<open>The cross-section builder on the store\<close>

text \<open>
  The soundings hold their columns as arrays in the store. \<^verbatim>\<open>np.empty\<close> returns an
  array of arbitrary contents; the model fills it with zeros. \<^verbatim>\<open>a[loc, :] = row\<close>
  writes one row of a two-dimensional array in place (the row is broadcast when it has
  one element, and must otherwise have the row's length); \<^verbatim>\<open>a[:] = r\<close> overwrites the
  whole array in place.
\<close>

type_synonym dataframe_h = "(string \<times> ndarray) list"

type_synonym soundings_h = "(string \<times> dataframe_h) list"

definition np_empty :: "nat \<Rightarrow> nat \<Rightarrow> real list list" where
  "np_empty n m = replicate n (replicate m 0)"

definition read_matrix :: "nat \<Rightarrow> real list list prog" where
  "read_matrix a h = (Inr (mat h a), h)"

definition put_row :: "nat \<Rightarrow> nat \<Rightarrow> real list \<Rightarrow> unit prog" where
  "put_row a loc row h =
     (case h ! a of
        Vec xs \<Rightarrow> (Inl IndexError, h)
      | Mat rows \<Rightarrow>
          if length rows \<le> loc then (Inl IndexError, h)
          else if length row = length (rows ! loc) \<or> length row = 1
          then (Inr (), h[a := Mat (rows[loc := stretch (length (rows ! loc)) row])])
          else (Inl ValueError, h))"

definition put_all :: "nat \<Rightarrow> nat \<Rightarrow> nat \<Rightarrow> real list list \<Rightarrow> unit prog" where
  "put_all a n m r h =
     (case assign_all n m r of
        Inl e \<Rightarrow> (Inl e, h)
      | Inr rows \<Rightarrow> (Inr (), h[a := Mat rows]))"

definition frame_of :: "soundings_h \<Rightarrow> string \<Rightarrow> dataframe_h prog" where
  "frame_of data station =
     lift (case map_of data station of None \<Rightarrow> Inl KeyError | Some df \<Rightarrow> Inr df)"

definition column_h :: "dataframe_h \<Rightarrow> string \<Rightarrow> ndarray prog" where
  "column_h df key = lift (case map_of df key of None \<Rightarrow> Inl KeyError | Some a \<Rightarrow> Inr a)"

definition first_of_h :: "dataframe_h \<Rightarrow> string \<Rightarrow> real prog" where
  "first_of_h df key =
     (case map_of df key of
        None \<Rightarrow> lift (Inl AttributeError)
      | Some a \<Rightarrow>
          and_then (read a) (\<lambda>c. lift (case c of [] \<Rightarrow> Inl KeyError | v # _ \<Rightarrow> Inr v)))"

text \<open>
  The loops and the body of the builder, as above; \<open>tmp\<close> is the address of
  \<^verbatim>\<open>tmp_grid[key]\<close>, and the dictionaries \<^verbatim>\<open>tmp_grid\<close> and \<^verbatim>\<open>grid\<close> hold addresses.
\<close>

definition station_row_h ::
  "soundings_h \<Rightarrow> ndarray \<Rightarrow> nat \<Rightarrow> string \<Rightarrow> site_lists \<Rightarrow> string \<Rightarrow> nat \<Rightarrow> site_lists prog" where
  "station_row_h data vertical_levels tmp key sl station loc =
     and_then (frame_of data station) (\<lambda>df.
       if key = ''pressure'' then
         and_then (first_of_h df ''latitude'') (\<lambda>la.
         and_then (first_of_h df ''longitude'') (\<lambda>lo.
         and_then (first_of_h df ''elevation'') (\<lambda>el.
         and_then (read vertical_levels) (\<lambda>row.
         and_then (put_row tmp loc row) (\<lambda>_.
         return \<lparr>lats = lats sl @ [la], lons = lons sl @ [lo], elev = elev sl @ [el]\<rparr>)))))
       else
         and_then (column_h df ''pressure'') (\<lambda>p.
         and_then (column_h df key) (\<lambda>v.
         and_then (vertical_interpolate_h p v vertical_levels) (\<lambda>r.
         and_then (read r) (\<lambda>row.
         and_then (put_row tmp loc row) (\<lambda>_.
         return sl))))))"

fun station_rows_h ::
  "soundings_h \<Rightarrow> ndarray \<Rightarrow> nat \<Rightarrow> string \<Rightarrow> site_lists \<Rightarrow> (string \<times> nat) list
     \<Rightarrow> site_lists prog" where
  "station_rows_h data vertical_levels tmp key sl [] = return sl"
| "station_rows_h data vertical_levels tmp key sl ((station, loc) # rest) =
     and_then (station_row_h data vertical_levels tmp key sl station loc) (\<lambda>sl'.
     station_rows_h data vertical_levels tmp key sl' rest)"

fun interpolate_keys_h ::
  "soundings_h \<Rightarrow> ndarray \<Rightarrow> string list \<Rightarrow> nat \<Rightarrow> site_lists \<Rightarrow> string list
     \<Rightarrow> (site_lists \<times> (string \<times> nat) list) prog" where
  "interpolate_keys_h data vertical_levels stns plevs sl [] = return (sl, [])"
| "interpolate_keys_h data vertical_levels stns plevs sl (key # keys) =
     and_then (new_matrix (np_empty (length stns) plevs)) (\<lambda>tmp.
     and_then (station_rows_h data vertical_levels tmp key sl (zip stns [0..<length stns])) (\<lambda>sl'.
     and_then (interpolate_keys_h data vertical_levels stns plevs sl' keys) (\<lambda>(sl'', tmp_grid).
     return (sl'', (key, tmp) # tmp_grid))))"

fun grid_keys_h ::
  "griddata \<Rightarrow> real list list \<Rightarrow> real list list \<Rightarrow> nat \<Rightarrow> nat \<Rightarrow> nat \<Rightarrow> nat
     \<Rightarrow> (string \<times> nat) list \<Rightarrow> (string \<times> nat) list prog" where
  "grid_keys_h griddata ddist pdist xx pp nx plevs [] = return []"
| "grid_keys_h griddata ddist pdist xx pp nx plevs ((key, tmp) # rest) =
     and_then (new_matrix (np_empty nx plevs)) (\<lambda>g.
     and_then (read_matrix tmp) (\<lambda>rows.
     and_then (read_matrix xx) (\<lambda>xs.
     and_then (read_matrix pp) (\<lambda>ps.
     and_then (lift (griddata (flatten ddist, flatten pdist) (flatten rows) (xs, ps))) (\<lambda>r.
     and_then (put_all g nx plevs r) (\<lambda>_.
     and_then (grid_keys_h griddata ddist pdist xx pp nx plevs rest) (\<lambda>grid.
     return ((key, g) # grid))))))))"

text \<open>The returned dictionary, holding array objects and addresses.\<close>

record cross_section_h =
  grid_data_h :: "(string \<times> nat) list"
  obs_distance_h :: ndarray
  x_grid_h :: nat
  p_grid_h :: nat
  elevation_h :: ndarray

definition assemble_h ::
  "geod \<Rightarrow> (real \<Rightarrow> real) \<Rightarrow> griddata \<Rightarrow> ndarray \<Rightarrow> nat \<Rightarrow> site_lists
     \<Rightarrow> (string \<times> nat) list \<Rightarrow> cross_section_h prog" where
  "assemble_h geod_inv height_to_pressure_std griddata vertical_levels nstns sl tmp_grid =
     and_then (lift (getitem (lons sl) 0)) (\<lambda>lon0.
     and_then (lift (getitem (lats sl) 0)) (\<lambda>lat0.
     and_then (new_array (inv_all geod_inv (replicate nstns lon0) (replicate nstns lat0)
                            (lons sl) (lats sl))) (\<lambda>dist.
     and_then (new_array (map height_to_pressure_std (elev sl))) (\<lambda>ground_elevation.
     and_then (item dist 0) (\<lambda>d0.
     and_then (item dist (- 1)) (\<lambda>dn.
     and_then (read vertical_levels) (\<lambda>vl.
     and_then (read dist) (\<lambda>ds.
     let x = np_linspace d0 dn 100; nx = length x in
     and_then (new_matrix (fst (np_meshgrid vl x))) (\<lambda>pp.
     and_then (new_matrix (snd (np_meshgrid vl x))) (\<lambda>xx.
     let (pdist, ddist) = np_meshgrid vl ds in
     and_then (grid_keys_h griddata ddist pdist xx pp nx (length vl) tmp_grid) (\<lambda>grid.
     return \<lparr>grid_data_h = grid, obs_distance_h = dist, x_grid_h = xx, p_grid_h = pp,
              elevation_h = ground_elevation\<rparr>)))))))))))"

definition radisonde_cross_section_h ::
  "geod \<Rightarrow> (real \<Rightarrow> real) \<Rightarrow> griddata \<Rightarrow> string list \<Rightarrow> soundings_h
     \<Rightarrow> int \<Rightarrow> int \<Rightarrow> int \<Rightarrow> cross_section_h prog" where
  "radisonde_cross_section_h geod_inv height_to_pressure_std griddata stns data start endp step =
     and_then (lift (np_arange start (endp - 1) (- step))) (\<lambda>levels.
     and_then (new_array (map real_of_int levels)) (\<lambda>vertical_levels.
     let plevs = length levels; nstns = length stns in
     and_then (lift (getitem stns 0)) (\<lambda>stn0.
     and_then (frame_of data stn0) (\<lambda>df0.
     let keys = take 8 (map fst df0) in
     and_then (interpolate_keys_h data vertical_levels stns plevs
                 \<lparr>lats = [], lons = [], elev = []\<rparr> (fromkeys keys)) (\<lambda>(sl, tmp_grid).
     assemble_h geod_inv height_to_pressure_std griddata vertical_levels nstns sl tmp_grid)))))"

text \<open>What a store holds for the soundings, and for a returned cross-section.\<close>

definition frames_in :: "heap \<Rightarrow> soundings_h \<Rightarrow> (string \<rightharpoonup> dataframe)" where
  "frames_in h data =
     map_of (map (\<lambda>(station, df). (station, map (\<lambda>(key, a). (key, contents h a)) df)) data)"

definition cross_section_in :: "heap \<Rightarrow> cross_section_h \<Rightarrow> cross_section" where
  "cross_section_in h cs =
     \<lparr>grid_data = map (\<lambda>(key, g). (key, mat h g)) (grid_data_h cs),
      obs_distance = contents h (obs_distance_h cs),
      x_grid = mat h (x_grid_h cs),
      p_grid = mat h (p_grid_h cs),
      elevation = contents h (elevation_h cs)\<rparr>"

text \<open>
  The arrays of a returned cross-section lie at addresses from \<open>lo\<close> on, inside the
  store.
\<close>

definition fresh_in :: "nat \<Rightarrow> heap \<Rightarrow> cross_section_h \<Rightarrow> bool" where
  "fresh_in lo h cs \<longleftrightarrow>
     list_all (\<lambda>a. lo \<le> a \<and> a < length h)
       (base (obs_distance_h cs) # base (elevation_h cs) # x_grid_h cs # p_grid_h cs #
        map snd (grid_data_h cs))"

text \<open>Every array of the soundings lives below address \<open>n\<close>.\<close>

definition arrays_below :: "nat \<Rightarrow> soundings_h \<Rightarrow> bool" where
  "arrays_below n data = list_all (\<lambda>(station, df). list_all (\<lambda>(key, a). base a < n) df) data"

text \<open>
  Two relations between the store before and after a program: \<open>extends h h'\<close> when every
  buffer of \<open>h\<close> is still there, unchanged, in \<open>h'\<close>; \<open>same_but t h h'\<close> when that holds
  except possibly at the address \<open>t\<close>. \<open>holds_rows\<close> relates the addresses of a dictionary
  of two-dimensional arrays to the dictionary of their values.
\<close>

definition same_but :: "nat \<Rightarrow> heap \<Rightarrow> heap \<Rightarrow> bool" where
  "same_but t h h' \<longleftrightarrow> length h \<le> length h' \<and> (\<forall>a < length h. a \<noteq> t \<longrightarrow> h' ! a = h ! a)"

definition extends :: "heap \<Rightarrow> heap \<Rightarrow> bool" where
  "extends h h' \<longleftrightarrow> take (length h) h' = h"

definition holds_rows ::
  "nat \<Rightarrow> heap \<Rightarrow> (string \<times> nat) list \<Rightarrow> (string \<times> real list list) list \<Rightarrow> bool" where
  "holds_rows lo h refs grids \<longleftrightarrow>
     list_all2 (\<lambda>(key, a) (key', rows). key = key' \<and> lo \<le> a \<and> a < length h \<and> h ! a = Mat rows)
       refs grids"

subsection \<open>Sample soundings in a store\<close>

definition arr :: "nat \<Rightarrow> ndarray" where
  "arr n = \<lparr>base = n, reversed = False\<rparr>"

definition frame_at :: "nat \<Rightarrow> dataframe_h" where
  "frame_at n =
     [(''pressure'', arr n), (''temperature'', arr (n + 1)), (''latitude'', arr (n + 2)),
      (''longitude'', arr (n + 3)), (''elevation'', arr (n + 4))]"

definition example_store :: heap where
  "example_store =
     [Vec [1000, 500], Vec [20, - 10], Vec [0, 0], Vec [0, 0], Vec [100, 100],
      Vec [950, 700, 400], Vec [18, 4, - 20], Vec [0, 0, 0], Vec [10, 10, 10], Vec [300, 300, 300],
      Vec [990, 600], Vec [19, - 2], Vec [0, 0], Vec [5, 5], Vec [200, 200]]"

definition example_arrays :: soundings_h where
  "example_arrays = [(''AAA'', frame_at 0), (''BBB'', frame_at 5), (''CCC'', frame_at 10)]"

section \<open>Properties of the vertical interpolator\<close>

subsection \<open>Closed forms\<close>

lemma getitem_first: "xs \<noteq> [] \<Longrightarrow> getitem xs 0 = Inr (hd xs)"
  by (cases xs) (simp_all add: getitem_def)

lemma getitem_last: "xs \<noteq> [] \<Longrightarrow> getitem xs (- 1) = Inr (last xs)"
  by (cases xs rule: rev_cases) (simp_all add: getitem_def nth_append)

lemma getitem_empty: "getitem [] i = Inl IndexError"
  by (simp add: getitem_def)

text \<open>The function in closed form, for a non-empty profile with as many values as levels.\<close>

lemma vertical_interpolate_eq:
  assumes "vcoord_data \<noteq> []" and "length interp_var = length vcoord_data"
  shows "vertical_interpolate vcoord_data interp_var interp_levels =
     Inr (assign_mask (map (\<lambda>l. l < last vcoord_data) interp_levels) (last interp_var)
           (assign_mask (map (\<lambda>l. hd vcoord_data < l) interp_levels) (hd interp_var)
             (rev (map (interp_point (rev (np_log vcoord_data)) (rev interp_var))
                       (rev (np_log interp_levels))))))"
proof -
  from assms have v: "interp_var \<noteq> []" by auto
  show ?thesis
    using assms v
    by (simp add: vertical_interpolate_def np_interp_def np_log_def getitem_first getitem_last)
qed

lemma length_assign_mask: "length (assign_mask m v xs) = min (length m) (length xs)"
  by (simp add: assign_mask_def)

lemma nth_assign_mask:
  "i < length m \<Longrightarrow> i < length xs \<Longrightarrow> assign_mask m v xs ! i = (if m ! i then v else xs ! i)"
  by (simp add: assign_mask_def)

lemma strictly_decreasing_last_le_hd:
  "strictly_decreasing ps \<Longrightarrow> ps \<noteq> [] \<Longrightarrow> last ps \<le> hd ps"
  by (cases ps) (auto simp: strictly_decreasing_def last_conv_nth less_imp_le  dest!: bspec)

lemma length_np_log: "length (np_log xs) = length xs"
  by (simp add: np_log_def)

lemma length_vertical_interpolate:
  assumes "vertical_interpolate p v l = Inr out"
  shows "length out = length l"
  using assms
  by (auto simp: vertical_interpolate_def np_interp_def np_log_def Let_def length_assign_mask
      split: if_splits sum.splits)

lemma assign_mask_map:
  "assign_mask (map P xs) v (map g xs) = map (\<lambda>x. if P x then v else g x) xs"
  by (induction xs) (simp_all add: assign_mask_def)

lemma vertical_interpolate_map:
  assumes "vcoord_data \<noteq> []" and "length interp_var = length vcoord_data"
  shows "vertical_interpolate vcoord_data interp_var interp_levels =
     Inr (map (\<lambda>l. if l < last vcoord_data then last interp_var
                   else if hd vcoord_data < l then hd interp_var
                   else interp_point (rev (np_log vcoord_data)) (rev interp_var) (ln l))
              interp_levels)"
proof -
  have "rev (map (interp_point (rev (np_log vcoord_data)) (rev interp_var)) (rev (np_log interp_levels)))
      = map (\<lambda>l. interp_point (rev (np_log vcoord_data)) (rev interp_var) (ln l)) interp_levels"
    by (simp add: rev_map np_log_def comp_def)
  then show ?thesis
    by (simp add: vertical_interpolate_eq [OF assms] assign_mask_map)
qed

lemma strictly_decreasing_nth:
  "strictly_decreasing ps \<Longrightarrow> i < j \<Longrightarrow> j < length ps \<Longrightarrow> ps ! j < ps ! i"
  by (simp add: strictly_decreasing_def sorted_wrt_iff_nth_less)

lemma strictly_decreasing_nth_le:
  "strictly_decreasing ps \<Longrightarrow> i \<le> j \<Longrightarrow> j < length ps \<Longrightarrow> ps ! j \<le> ps ! i"
  using strictly_decreasing_nth [of ps i j] by (cases "i = j") (auto simp: less_imp_le)

lemma log_samples_increasing:
  assumes "strictly_decreasing ps" and "positive_levels ps" and "length vs = length ps"
  shows "sorted_wrt (<) (map fst (zip (rev (np_log ps)) (rev vs)))"
proof -
  have "sorted_wrt (\<lambda>a b. ln b < ln a) ps"
    using assms(1,2) unfolding strictly_decreasing_def positive_levels_def
    by (auto simp: sorted_wrt_iff_nth_less list_all_length)
  then have "sorted_wrt (<) (rev (np_log ps))"
    by (simp add: np_log_def sorted_wrt_rev sorted_wrt_map)
  then show ?thesis using assms(3) by (simp add: length_np_log)
qed

lemma zip_rev_nth:
  assumes "length vs = length ps" and "k < length ps"
  shows "zip (rev (np_log ps)) (rev vs) ! k =
           (ln (ps ! (length ps - Suc k)), vs ! (length ps - Suc k))"
  using assms by (simp add: rev_nth np_log_def)

subsection \<open>The piecewise-linear interpolant on increasing sample points\<close>

lemma interp_seg_head:
  "sorted_wrt (<) (map fst ((x0, y0) # ps)) \<Longrightarrow> interp_seg ((x0, y0) # ps) x0 = y0"
  by (cases ps) auto

lemma interp_seg_sample:
  "sorted_wrt (<) (map fst ps) \<Longrightarrow> k < length ps \<Longrightarrow> interp_seg ps (fst (ps ! k)) = snd (ps ! k)"
proof (induction ps "fst (ps ! k)" arbitrary: k rule: interp_seg.induct)
  case 1
  then show ?case by simp
next
  case (2 x0 y0)
  then show ?case by simp
next
  case (3 x0 y0 x1 y1 ps)
  show ?case
  proof (cases k)
    case 0
    then show ?thesis using "3.prems" by auto
  next
    case (Suc k')
    have ge: "x1 \<le> fst (((x1, y1) # ps) ! k')"
      using "3.prems" Suc by (cases k') (auto simp: less_imp_le)
    have "interp_seg ((x1, y1) # ps) (fst (((x1, y1) # ps) ! k')) = snd (((x1, y1) # ps) ! k')"
      using "3.prems" Suc ge by (intro "3.hyps") auto
    then show ?thesis using Suc ge by auto
  qed
qed

lemma interp_seg_between:
  "sorted_wrt (<) (map fst ps) \<Longrightarrow> Suc k < length ps \<Longrightarrow>
   fst (ps ! k) \<le> x \<Longrightarrow> x \<le> fst (ps ! Suc k) \<Longrightarrow>
   interp_seg ps x =
     (snd (ps ! Suc k) - snd (ps ! k)) / (fst (ps ! Suc k) - fst (ps ! k)) * (x - fst (ps ! k)) + snd (ps ! k)"
proof (induction ps x arbitrary: k rule: interp_seg.induct)
  case (1 x)
  then show ?case by simp
next
  case (2 x0 y0 x)
  then show ?case by simp
next
  case (3 x0 y0 x1 y1 ps x)
  show ?case
  proof (cases k)
    case 0
    show ?thesis
    proof (cases "x < x1")
      case True
      then show ?thesis using 0 by simp
    next
      case False
      with "3.prems" 0 have x: "x = x1" by simp
      have "interp_seg ((x1, y1) # ps) x1 = y1"
        using "3.prems"(1) by (intro interp_seg_head) simp
      moreover have "x0 \<noteq> x1" using "3.prems"(1) by simp
      ultimately show ?thesis using 0 x by simp
    qed
  next
    case (Suc k')
    have ge: "x1 \<le> fst (((x1, y1) # ps) ! k')"
      using "3.prems" Suc by (cases k') (auto simp: less_imp_le)
    then have nlt: "\<not> x < x1" using "3.prems"(3) Suc by simp
    have "interp_seg ((x1, y1) # ps) x =
       (snd (((x1, y1) # ps) ! Suc k') - snd (((x1, y1) # ps)  ! k')) /
         (fst (((x1, y1) # ps) ! Suc k') - fst (((x1, y1) # ps) ! k')) * (x - fst (((x1, y1) # ps) ! k'))
        + snd (((x1, y1) # ps) ! k')"
      using "3.prems" Suc nlt by (intro "3.IH") auto
    then show ?thesis using Suc nlt by simp
  qed
qed

lemma log_ends:
  assumes "ps \<noteq> []"
  shows "hd (rev (np_log ps)) = ln (last ps)" and "last (rev (np_log ps)) = ln (hd ps)"
  using assms by (simp_all add: np_log_def hd_rev last_rev last_map hd_map)

lemma interp_point_inside:
  assumes ne: "ps \<noteq> []" and pos: "positive_levels ps"
    and lo: "last ps \<le> t" and hi: "t \<le> hd ps"
  shows "interp_point (rev (np_log ps)) (rev vs) (ln t) = interp_seg (zip (rev (np_log ps)) (rev vs)) (ln t)"
proof -
  have "0 < last ps" using ne pos by (simp add: positive_levels_def list_all_iff)
  with lo hi have "ln (last ps) \<le> ln t" and "ln t \<le> ln (hd ps)" by simp_all
  then show ?thesis by (simp add: interp_point_def log_ends [OF ne])
qed

lemma interp_at_observed:
  assumes dec: "strictly_decreasing ps" and pos: "positive_levels ps"
    and len: "length vs = length ps" and j: "j < length ps"
  shows "interp_point (rev (np_log ps)) (rev vs) (ln (ps ! j)) = vs ! j"
proof -
  let ?zs = "zip (rev (np_log ps)) (rev vs)"
  let ?k = "length ps - Suc j"
  from j have ne: "ps \<noteq> []" by auto
  have k: "?k < length ps" and kj: "length ps - Suc ?k = j" using j by auto
  have lo: "last ps \<le> ps ! j"
    using strictly_decreasing_nth_le [OF dec, of j "length ps - 1"] j ne by (simp add: last_conv_nth)
  have hi: "ps ! j \<le> hd ps"
    using strictly_decreasing_nth_le [OF dec, of 0 j] j ne by (simp add: hd_conv_nth)
  have zk: "?zs ! ?k = (ln (ps ! j), vs ! j)"
    using zip_rev_nth [OF len k] kj by simp
  have "interp_seg ?zs (fst (?zs ! ?k)) = snd (?zs ! ?k)"
    using log_samples_increasing [OF dec pos len] k len
    by (intro interp_seg_sample) (simp_all add: length_np_log)
  then show ?thesis
    by (simp add: interp_point_inside [OF ne pos lo hi] zk)
qed

lemma interp_between_observed:
  assumes dec: "strictly_decreasing ps" and pos: "positive_levels ps"
    and len: "length vs = length ps" and j: "Suc j < length ps"
    and lo: "ps ! Suc j \<le> t" and hi: "t \<le> ps ! j"
  shows "interp_point (rev (np_log ps)) (rev vs) (ln t) =
           log_linear (ps ! j, vs ! j) (ps ! Suc j, vs ! Suc j) t"
proof -
  let ?zs = "zip (rev (np_log ps)) (rev vs)"
  let ?k = "length ps - Suc (Suc j)"
  from j have ne: "ps \<noteq> []" by auto
  have k: "Suc ?k < length ps" and b1: "length ps - Suc ?k = Suc j"
    and b2: "length ps - Suc (Suc ?k) = j" using j by auto
  have pj: "0 < ps ! j" and pj1: "0 < ps ! Suc j"
    using pos j by (simp_all add: positive_levels_def list_all_length)
  have tpos: "0 < t" using pj1 lo by simp
  have lt: "ps ! Suc j < ps ! j" using strictly_decreasing_nth [OF dec, of j "Suc j"] j by simp
  have "Suc j \<le> length ps - 1" and "length ps - 1 < length ps" using j by simp_all
  then have "ps ! (length ps - 1) \<le> ps ! Suc j"
    by (rule strictly_decreasing_nth_le [OF dec])
  then have lo': "last ps \<le> t"
    using ne lo by (simp add: last_conv_nth)
  have hi': "t \<le> hd ps"
    using strictly_decreasing_nth_le [OF dec, of 0 j] j ne hi by (simp add: hd_conv_nth)
  have zk: "?zs ! ?k = (ln (ps ! Suc j), vs ! Suc j)"
    using zip_rev_nth [OF len, of ?k] k b1 by simp
  have zk1: "?zs ! Suc ?k = (ln (ps ! j), vs ! j)"
    using zip_rev_nth [OF len, of "Suc ?k"] k b2 by simp
  have lnlo: "ln (ps ! Suc j) \<le> ln t" and lnhi: "ln t \<le> ln (ps ! j)"
    using lo hi pj1 tpos by simp_all
  have lnlt: "ln (ps ! Suc j) < ln (ps ! j)" using lt pj1 by simp
  have "interp_seg ?zs (ln t) =
      (snd (?zs ! Suc ?k) - snd (?zs ! ?k)) / (fst (?zs ! Suc ?k) - fst (?zs ! ?k)) * (ln t - fst (?zs ! ?k))
        + snd (?zs ! ?k)"
    using log_samples_increasing [OF dec pos len] k len lnlo lnhi
    by (intro interp_seg_between) (simp_all add: length_np_log zk zk1)
  also have "\<dots> = (vs ! j - vs ! Suc j) / (ln (ps ! j) - ln (ps ! Suc j)) * (ln t - ln (ps ! Suc j)) + vs ! Suc j"
    by (simp add: zk zk1)
  also have "\<dots> = log_linear (ps ! j, vs ! j) (ps ! Suc j, vs ! Suc j) t"
    using lnlt by (simp add: log_linear_def field_simps)
  finally show ?thesis
    by (simp add: interp_point_inside [OF ne pos lo' hi'])
qed

lemma bracket_exists:
  "ps \<noteq> [] \<Longrightarrow> last ps \<le> t \<Longrightarrow> t \<le> hd ps \<Longrightarrow>
   \<exists>j. (j < length ps \<and> (t::real) = ps ! j) \<or>
       (Suc j < length ps \<and> ps ! Suc j \<le> t \<and> t \<le> ps ! j)"
proof (induction ps rule: induct_list012)
  case 1
  then show ?case by simp
next
  case (2 p)
  then have "t = [p] ! 0" by auto
  then show ?case by (intro exI [of _ 0]) simp
next
  case (3 p q qs)
  show ?case
  proof (cases "q \<le> t")
    case True
    with "3.prems" show ?thesis by (intro exI [of _ 0]) simp
  next
    case False
    with "3.prems" have "last (q # qs) \<le> t" and "t \<le> hd (q # qs)" by simp_all
    with "3.IH"(2) obtain j where
      "(j < length (q # qs) \<and> t = (q # qs) ! j) \<or>
       (Suc j < length (q # qs) \<and> (q # qs) ! Suc j \<le> t \<and> t \<le> (q # qs) ! j)"
      by blast
    then show ?thesis by (intro exI [of _ "Suc j"]) simp
  qed
qed

lemma log_linear_between:
  assumes "0 < fst b" and "fst b \<le> p" and "p \<le> fst a" and "fst b < fst a"
  shows "min (snd a) (snd b) \<le> log_linear a b p" and "log_linear a b p \<le> max (snd a) (snd b)"
proof -
  define w where "w = (ln p - ln (fst a)) / (ln (fst b) - ln (fst a))"
  have "0 < p" using assms by simp
  have d: "ln (fst b) - ln (fst a) < 0" using assms by simp
  have n: "ln p - ln (fst a) \<le> 0" using assms \<open>0 < p\<close> by simp
  have n2: "ln (fst b) - ln (fst a) \<le> ln p - ln (fst a)" using assms \<open>0 < p\<close> by simp
  have w0: "0 \<le> w" unfolding w_def using d n by (simp add: divide_nonpos_neg)
  have w1: "w \<le> 1" unfolding w_def using d n2 by (simp add: neg_divide_le_eq)
  have eq: "log_linear a b p = (1 - w) * snd a + w * snd b"
    unfolding log_linear_def w_def [symmetric] by (simp add: algebra_simps)
  have "min (snd a) (snd b) = (1 - w) * min (snd a) (snd b) + w * min (snd a) (snd b)"
    by (simp add: algebra_simps)
  also have "\<dots> \<le> (1 - w) * snd a + w * snd b"
    using w0 w1 by (intro add_mono mult_left_mono) simp_all
  finally show "min (snd a) (snd b) \<le> log_linear a b p" by (simp add: eq)
  have "(1 - w) * snd a + w * snd b \<le> (1 - w) * max (snd a) (snd b) + w * max (snd a) (snd b)"
    using w0 w1 by (intro add_mono mult_left_mono) simp_all
  also have "\<dots> = max (snd a) (snd b)" by (simp add: algebra_simps)
  finally show "log_linear a b p \<le> max (snd a) (snd b)" by (simp add: eq)
qed

section \<open>The claims about the vertical interpolator\<close>

text \<open>
  C1. For a strictly decreasing, non-empty sequence of observed pressures with as many
  values, and any target grid, the interpolator returns one value per target level; a
  level whose pressure is greater than the first observed pressure receives the first
  observed value, and a level whose pressure is less than the last observed pressure
  receives the last observed value. Nothing is extrapolated.
\<close>

theorem vertical_interpolate_clamps:
  assumes "strictly_decreasing vcoord_data" and "vcoord_data \<noteq> []"
    and "length interp_var = length vcoord_data"
  shows "\<exists>out. vertical_interpolate vcoord_data interp_var interp_levels = Inr out \<and>
           length out = length interp_levels \<and>
           (\<forall>i < length interp_levels.
              (hd vcoord_data < interp_levels ! i \<longrightarrow> out ! i = hd interp_var) \<and>
              (interp_levels ! i < last vcoord_data \<longrightarrow> out ! i = last interp_var))"
proof -
  have le: "last vcoord_data \<le> hd vcoord_data"
    using assms(1,2) by (rule strictly_decreasing_last_le_hd)
  show ?thesis
    using le by (auto simp: vertical_interpolate_eq [OF assms(2,3)] length_assign_mask nth_assign_mask length_np_log)
qed

theorem vertical_interpolate_clamps_witness:
  "\<exists>out. vertical_interpolate [1000, 850, 700, 500] [20, 15, 5, - 10] [1050, 900, 100] = Inr out \<and>
      length out = 3 \<and> out ! 0 = 20 \<and> out ! 2 = - 10"
  using vertical_interpolate_clamps [of "[1000, 850, 700, 500]" "[20, 15, 5, - 10]" "[1050, 900, 100]"]
  by (auto simp: strictly_decreasing_def)

text \<open>
  C2. For a strictly decreasing sequence of positive observed pressures with as many
  values, at every target level that equals an observed pressure the output is that
  level's observed value, and at every target level between two neighbouring observed
  pressures the output is the log-pressure linear interpolant \<open>log_linear\<close> of the two
  samples, which lies between their two values. Every level of a grid inside the observed
  range is of one of these two kinds.
\<close>

theorem vertical_interpolate_log_linear:
  assumes dec: "strictly_decreasing vcoord_data" and pos: "positive_levels vcoord_data"
    and ne: "vcoord_data \<noteq> []" and len: "length interp_var = length vcoord_data"
  shows "\<exists>out. vertical_interpolate vcoord_data interp_var interp_levels = Inr out \<and>
           length out = length interp_levels \<and>
           (\<forall>i < length interp_levels. \<forall>j < length vcoord_data.
              (interp_levels ! i = vcoord_data ! j \<longrightarrow> out ! i = interp_var ! j) \<and>
              (Suc j < length vcoord_data \<and> vcoord_data ! Suc j \<le> interp_levels ! i \<and>
                 interp_levels ! i \<le> vcoord_data ! j \<longrightarrow>
                 out ! i = log_linear (vcoord_data ! j, interp_var ! j)
                             (vcoord_data ! Suc j, interp_var ! Suc j) (interp_levels ! i) \<and>
                 min (interp_var ! j) (interp_var ! Suc j) \<le> out ! i \<and>
                 out ! i \<le> max (interp_var ! j) (interp_var ! Suc j))) \<and>
           (\<forall>i < length interp_levels.
              last vcoord_data \<le> interp_levels ! i \<and> interp_levels ! i \<le> hd vcoord_data \<longrightarrow>
              (\<exists>j. (j < length vcoord_data \<and> interp_levels ! i = vcoord_data ! j) \<or>
                   (Suc j < length vcoord_data \<and> vcoord_data ! Suc j \<le> interp_levels ! i \<and>
                    interp_levels ! i \<le> vcoord_data ! j)))"
proof -
  define f where "f = (\<lambda>l. if l < last vcoord_data then last interp_var
                else if hd vcoord_data < l then hd interp_var
                else interp_point (rev (np_log vcoord_data)) (rev interp_var) (ln l))"
  have eq: "vertical_interpolate vcoord_data interp_var interp_levels = Inr (map f interp_levels)"
    unfolding f_def by (rule vertical_interpolate_map [OF ne len])
  have inside: "f t = interp_point (rev (np_log vcoord_data)) (rev interp_var) (ln t)"
    if "last vcoord_data \<le> t" and "t \<le> hd vcoord_data" for t
    using that by (simp add: f_def)
  have ends: "last vcoord_data \<le> vcoord_data ! j \<and> vcoord_data ! j \<le> hd vcoord_data"
    if "j < length vcoord_data" for j
  proof -
    have "j \<le> length vcoord_data - 1" and "length vcoord_data - 1 < length vcoord_data"
      using that by simp_all
    then have "vcoord_data ! (length vcoord_data - 1) \<le> vcoord_data ! j"
      by (rule strictly_decreasing_nth_le [OF dec])
    moreover have "vcoord_data ! j \<le> vcoord_data ! 0"
      using that by (intro strictly_decreasing_nth_le [OF dec]) simp_all
    ultimately show ?thesis using ne by (simp add: last_conv_nth hd_conv_nth)
  qed
  have obs: "f (vcoord_data ! j) = interp_var ! j" if "j < length vcoord_data" for j
    using ends [OF that] interp_at_observed [OF dec pos len that] by (simp add: inside)
  have btw: "f t = log_linear (vcoord_data ! j, interp_var ! j)
                      (vcoord_data ! Suc j, interp_var ! Suc j) t"
    if "Suc j < length vcoord_data" and "vcoord_data ! Suc j \<le> t" and "t \<le> vcoord_data ! j" for j t
  proof -
    have "last vcoord_data \<le> t" using ends [OF that(1)] that(2) by simp
    moreover have "t \<le> hd vcoord_data" using ends [of j] that by simp
    ultimately show ?thesis
      using interp_between_observed [OF dec pos len that] by (simp add: inside)
  qed
  have bnd: "min (interp_var ! j) (interp_var ! Suc j) \<le>
               log_linear (vcoord_data ! j, interp_var ! j) (vcoord_data ! Suc j, interp_var ! Suc j) t \<and>
             log_linear (vcoord_data ! j, interp_var ! j) (vcoord_data ! Suc j, interp_var ! Suc j) t
               \<le> max (interp_var ! j) (interp_var ! Suc j)"
    if "Suc j < length vcoord_data" and "vcoord_data ! Suc j \<le> t" and "t \<le> vcoord_data ! j" for j t
  proof -
    have p: "0 < vcoord_data ! Suc j"
      using pos that(1) by (simp add: positive_levels_def list_all_length)
    have lt: "vcoord_data ! Suc j < vcoord_data ! j"
      using strictly_decreasing_nth [OF dec, of j "Suc j"] that(1) by simp
    show ?thesis
      using log_linear_between [of "(vcoord_data ! Suc j, interp_var ! Suc j)" t
               "(vcoord_data ! j, interp_var ! j)"] p lt that
      by simp
  qed
  have "(f (interp_levels ! i) =
             log_linear (vcoord_data ! j, interp_var ! j)
               (vcoord_data ! Suc j, interp_var ! Suc j) (interp_levels ! i) \<and>
           min (interp_var ! j) (interp_var ! Suc j) \<le> f (interp_levels ! i) \<and>
           f (interp_levels ! i) \<le> max (interp_var ! j) (interp_var ! Suc j))"
    if "Suc j < length vcoord_data" and "vcoord_data ! Suc j \<le> interp_levels ! i"
      and "interp_levels ! i \<le> vcoord_data ! j" for i j
    using btw [OF that] bnd [OF that] by simp
  then have main: "\<forall>i < length interp_levels. \<forall>j < length vcoord_data.
      (interp_levels ! i = vcoord_data ! j \<longrightarrow> map f interp_levels ! i = interp_var ! j) \<and>
      (Suc j < length vcoord_data \<and> vcoord_data ! Suc j \<le> interp_levels ! i \<and>
         interp_levels ! i \<le> vcoord_data ! j \<longrightarrow>
         map f interp_levels ! i = log_linear (vcoord_data ! j, interp_var ! j)
                     (vcoord_data ! Suc j, interp_var ! Suc j) (interp_levels ! i) \<and>
         min (interp_var ! j) (interp_var ! Suc j) \<le> map f interp_levels ! i \<and>
         map f interp_levels ! i \<le> max (interp_var ! j) (interp_var ! Suc j))"
    using obs by auto
  have cover: "\<forall>i < length interp_levels.
      last vcoord_data \<le> interp_levels ! i \<and> interp_levels ! i \<le> hd vcoord_data \<longrightarrow>
      (\<exists>j. (j < length vcoord_data \<and> interp_levels ! i = vcoord_data ! j) \<or>
           (Suc j < length vcoord_data \<and> vcoord_data ! Suc j \<le> interp_levels ! i \<and>
            interp_levels ! i \<le> vcoord_data ! j))"
    using bracket_exists [OF ne] by blast
  show ?thesis
    unfolding eq
  proof (intro exI [of _ "map f interp_levels"] conjI)
    show "Inr (map f interp_levels) = Inr (map f interp_levels)" by (rule refl)
    show "length (map f interp_levels) = length interp_levels" by simp
  qed (rule main, rule cover)
qed

theorem vertical_interpolate_log_linear_witness:
  "\<exists>out. vertical_interpolate [1000, 850, 700, 500] [20, 15, 5, - 10] [850, 900] = Inr out \<and>
      out ! 0 = 15 \<and> out ! 1 = log_linear (1000, 20) (850, 15) 900 \<and>
      15 \<le> out ! 1 \<and> out ! 1 \<le> 20"
proof -
  obtain out where eq: "vertical_interpolate [1000, 850, 700, 500] [20, 15, 5, - 10] [850, 900] = Inr out"
    and all: "\<forall>i < length [850, 900 :: real]. \<forall>j < length [1000, 850, 700, 500 :: real].
              ([850, 900] ! i = [1000, 850, 700, 500 :: real] ! j \<longrightarrow> out ! i = [20, 15, 5, - 10] ! j) \<and>
              (Suc j < length [1000, 850, 700, 500 :: real] \<and> [1000, 850, 700, 500] ! Suc j \<le> [850, 900 :: real] ! i \<and>
                 [850, 900] ! i \<le> [1000, 850, 700, 500 :: real] ! j \<longrightarrow>
                 out ! i = log_linear ([1000, 850, 700, 500] ! j, [20, 15, 5, - 10] ! j)
                             ([1000, 850, 700, 500] ! Suc j, [20, 15, 5, - 10] ! Suc j) ([850, 900] ! i) \<and>
                 min ([20, 15, 5, - 10] ! j) ([20, 15, 5, - 10] ! Suc j) \<le> out ! i \<and>
                 out ! i \<le> max ([20, 15, 5, - 10] ! j) ([20, 15, 5, - 10] ! Suc j))"
    using vertical_interpolate_log_linear [of "[1000, 850, 700, 500]" "[20, 15, 5, - 10]" "[850, 900]"]
    by (auto simp: strictly_decreasing_def positive_levels_def)
  from all [rule_format, of 0 1] have "out ! 0 = 15" by simp
  moreover from all [rule_format, of 1 0]
  have "out ! 1 = log_linear (1000, 20) (850, 15) 900 \<and> 15 \<le> out ! 1 \<and> out ! 1 \<le> 20" by simp
  ultimately show ?thesis using eq by simp
qed

subsection \<open>The worked example of the specification\<close>

lemma pow_ln_less:
  assumes "0 < a" and "0 < b" and "0 < c" and "a ^ m < b ^ n * c ^ k"
  shows "real m * ln a < real n * ln b + real k * ln (c::real)"
proof -
  have "ln (a ^ m) < ln (b ^ n * c ^ k)"
    using assms by (subst ln_less_cancel_iff) simp_all
  then show ?thesis
    using assms by (simp add: ln_realpow ln_mult)
qed

lemma pow_ln_greater:
  assumes "0 < a" and "0 < b" and "0 < c" and "b ^ n * c ^ k < a ^ m"
  shows "real n * ln b + real k * ln (c::real) < real m * ln a"
proof -
  have "ln (b ^ n * c ^ k) < ln (a ^ m)"
    using assms by (subst ln_less_cancel_iff) simp_all
  then show ?thesis
    using assms by (simp add: ln_realpow ln_mult)
qed

lemma ln_ratio_bounds:
  "16 / 25 < (ln 900 - ln 1000) / (ln 850 - ln (1000::real))"
  "(ln 900 - ln 1000) / (ln 850 - ln (1000::real)) < 33 / 50"
proof -
  have d: "ln (850::real) - ln 1000 < 0" by simp
  have a: "25 * ln (900::real) < 16 * ln 850 + 9 * ln 1000"
    using pow_ln_less [of 900 850 1000 25 16 9] by simp
  have b: "33 * ln (850::real) + 17 * ln 1000 < 50 * ln 900"
    using pow_ln_greater [of 900 850 1000 33 17 50] by simp
  have "(16 / 25) * (ln 850 - ln (1000::real)) > ln 900 - ln 1000"
    using a by simp
  then show "16 / 25 < (ln 900 - ln 1000) / (ln 850 - ln (1000::real))"
    using d by (subst neg_less_divide_eq) simp_all
  have "ln 900 - ln 1000 > (33 / 50) * (ln 850 - ln (1000::real))"
    using b by simp
  then show "(ln 900 - ln 1000) / (ln 850 - ln (1000::real)) < 33 / 50"
    using d by (subst neg_divide_less_eq) simp_all
qed

lemma example_middle_value:
  "167 / 10 < log_linear (1000, 20) (850, 15) 900" "log_linear (1000, 20) (850, 15) 900 < 168 / 10"
proof -
  have eq: "log_linear (1000, 20) (850, 15) 900 = 20 - 5 * ((ln 900 - ln 1000) / (ln 850 - ln (1000::real)))"
    unfolding log_linear_def fst_conv snd_conv by algebra
  show "167 / 10 < log_linear (1000, 20) (850, 15) 900"
    using ln_ratio_bounds(2) unfolding eq by linarith
  show "log_linear (1000, 20) (850, 15) 900 < 168 / 10"
    using ln_ratio_bounds(1) unfolding eq by linarith
qed

lemma example_output:
  "vertical_interpolate [1000, 850, 700, 500] [20, 15, 5, - 10] [1000, 900, 100] =
     Inr [20, log_linear (1000, 20) (850, 15) 900, - 10]"
proof -
  let ?ps = "[1000, 850, 700, 500 :: real]" and ?vs = "[20, 15, 5, - 10 :: real]"
  have dec: "strictly_decreasing ?ps" and pos: "positive_levels ?ps"
    by (simp_all add: strictly_decreasing_def positive_levels_def)
  have a: "interp_point (rev (np_log ?ps)) (rev ?vs) (ln 1000) = 20"
    using interp_at_observed [OF dec pos, of ?vs 0] by simp
  have b: "interp_point (rev (np_log ?ps)) (rev ?vs) (ln 900) = log_linear (1000, 20) (850, 15) 900"
    using interp_between_observed [OF dec pos, of ?vs 0 900] by simp
  show ?thesis
    using a b by (simp add: vertical_interpolate_map)
qed

text \<open>
  C5, as stated, fails: with observed pressures 1000, 850, 700, 500 and temperatures
  20, 15, 5, -10, the output at the target level 900 is not within 1 of 12.7.
\<close>

theorem example_not_12_7:
  "\<not> (\<exists>out. vertical_interpolate [1000, 850, 700, 500] [20, 15, 5, - 10] [1000, 900, 100] = Inr out \<and>
          \<bar>out ! 1 - 127 / 10\<bar> \<le> 1)"
  using example_middle_value(1) by (simp add: example_output)

text \<open>
  C5, amended: the outputs on the grid 1000, 900, 100 are 20, a middle value \<open>m\<close> and -10,
  where \<open>m\<close> is the log-pressure interpolant between the samples (1000, 20) and (850, 15),
  the two that enclose 900, and lies between 16.7 and 16.8; the last output is the value
  of the highest observed level (100 is less than 500).
\<close>

theorem example_log_interpolated:
  "\<exists>m. vertical_interpolate [1000, 850, 700, 500] [20, 15, 5, - 10] [1000, 900, 100] = Inr [20, m, - 10] \<and>
       m = log_linear (1000, 20) (850, 15) 900 \<and> 167 / 10 < m \<and> m < 168 / 10"
  using example_middle_value by (simp add: example_output)

text \<open>
  C7, as stated, fails: a profile with a single observed level is interpolated without any
  error; every target level receives that level's value.
\<close>

theorem single_level_no_error:
  "length [1000 :: real] < 2 \<and>
   vertical_interpolate [1000] [20] [1000, 900, 100] = Inr [20, 20, 20]"
  by (simp add: vertical_interpolate_map interp_point_def np_log_def)

text \<open>
  C7, amended: a profile with no observed level makes the interpolator raise
  (\<^verbatim>\<open>ValueError\<close>, from \<^verbatim>\<open>np.interp\<close>); a profile with exactly one observed level raises
  nothing and yields that level's value at every target level.
\<close>

theorem short_profile_behaviour:
  "vertical_interpolate [] interp_var interp_levels = Inl ValueError \<and>
   vertical_interpolate [p] [v] interp_levels = Inr (map (\<lambda>l. v) interp_levels)"
  by (simp add: vertical_interpolate_map interp_point_def np_log_def)
     (simp add: vertical_interpolate_def np_interp_def np_log_def)

section \<open>Properties of the cross-section builder\<close>

lemma length_np_linspace: "length (np_linspace a b num) = num"
  by (simp add: np_linspace_def)

lemma length_np_arange: "np_arange start stop step = Inr levels \<Longrightarrow> length levels = arange_len start stop step"
  by (auto simp: np_arange_def split: if_splits)

lemma length_stretch: "length (stretch k xs) = k"
  by (simp add: stretch_def)

lemma assign_all_shape:
  assumes "assign_all n m r = Inr g"
  shows "length g = n \<and> list_all (\<lambda>row. length row = m) g"
proof -
  from assms have b: "broadcastable n m r" and g: "g = stretch n (map (stretch m) r)"
    by (auto simp: assign_all_def split: if_splits)
  have rows: "list_all (\<lambda>row. length row = m) (map (stretch m) r)"
    by (simp add: list_all_iff length_stretch)
  show ?thesis
  proof (cases "length r = n")
    case True
    then show ?thesis using rows by (simp add: g stretch_def)
  next
    case False
    with b have "length r = 1" by (simp add: broadcastable_def)
    then obtain row where "r = [row]" by (cases r) auto
    then show ?thesis by (simp add: g stretch_def list_all_iff)
  qed
qed

lemma grid_keys_shape:
  "grid_keys griddata ddist pdist xx pp nx plevs tmp_grid = Inr grid \<Longrightarrow>
   list_all (\<lambda>(key, g). length g = nx \<and> list_all (\<lambda>row. length row = plevs) g) grid"
proof (induction tmp_grid arbitrary: grid)
  case Nil
  then show ?case by simp
next
  case (Cons kr rest)
  obtain key rows where kr: "kr = (key, rows)" by (cases kr)
  from Cons.prems obtain r g grid' where
    a: "assign_all nx plevs r = Inr g"
    and rest: "grid_keys griddata ddist pdist xx pp nx plevs rest = Inr grid'"
    and grid: "grid = (key, g) # grid'"
    by (auto simp: kr split: sum.splits)
  show ?case
    using assign_all_shape [OF a] Cons.IH [OF rest] by (simp add: grid)
qed

text \<open>The last loop makes one grid for each key of \<^verbatim>\<open>tmp_grid\<close>, in the same order.\<close>

lemma grid_keys_names:
  "grid_keys griddata ddist pdist xx pp nx plevs tmp_grid = Inr grid \<Longrightarrow>
   map fst grid = map fst tmp_grid"
proof (induction tmp_grid arbitrary: grid)
  case Nil
  then show ?case by simp
next
  case (Cons kr rest)
  obtain key rows where kr: "kr = (key, rows)" by (cases kr)
  from Cons.prems obtain g grid' where
    rest: "grid_keys griddata ddist pdist xx pp nx plevs rest = Inr grid'"
    and grid: "grid = (key, g) # grid'"
    by (auto simp: kr split: sum.splits)
  from Cons.IH [OF rest] show ?case by (simp add: grid kr)
qed

subsection \<open>Properties of the great-circle distance\<close>

lemma central_angle_cos_bounds:
  "- 1 \<le> sin a * sin b + cos a * cos b * cos c" "sin a * sin b + cos a * cos b * cos (c::real) \<le> 1"
proof -
  define w where "w = (1 + cos c) / 2"
  have "- 1 \<le> cos c" by (rule cos_ge_minus_one)
  then have "0 \<le> 1 + cos c" by arith
  then have w0: "0 \<le> w" by (simp add: w_def)
  have "cos c \<le> 1" by (rule cos_le_one)
  then have "1 + cos c \<le> 2" by arith
  then have w1: "w \<le> 1" by (simp add: w_def)
  note w = w0 w1
  have eq: "sin a * sin b + cos a * cos b * cos c = w * cos (a - b) + (1 - w) * (- cos (a + b))"
    by (simp add: w_def cos_diff cos_add algebra_simps) 
  have "w * cos (a - b) + (1 - w) * (- cos (a + b)) \<le> w * 1 + (1 - w) * 1"
    using w cos_le_one [of "a - b"] cos_ge_minus_one [of "a + b"]
    by (intro add_mono mult_left_mono) simp_all
  then show "sin a * sin b + cos a * cos b * cos c \<le> 1" by (simp add: eq)
  have "w * (- 1) + (1 - w) * (- 1) \<le> w * cos (a - b) + (1 - w) * (- cos (a + b))"
    using w cos_ge_minus_one [of "a - b"] cos_le_one [of "a + b"]
    by (intro add_mono mult_left_mono) simp_all
  then show "- 1 \<le> sin a * sin b + cos a * cos b * cos c" by (simp add: eq)
qed

lemma great_circle_distance_nonneg: "0 \<le> great_circle_distance lon1 lat1 lon2 lat2"
  unfolding great_circle_distance_def earth_radius_def
  using central_angle_cos_bounds by (intro mult_nonneg_nonneg arccos_lbound) simp_all

lemma great_circle_distance_self: "great_circle_distance lon lat lon lat = 0"
proof -
  have "sin (radians lat) * sin (radians lat) + cos (radians lat) * cos (radians lat) = 1"
    using sin_cos_squared_add [of "radians lat"] by (simp add: power2_eq_square)
  then show ?thesis by (simp add: great_circle_distance_def)
qed

lemma great_circle_distance_from_equator:
  "great_circle_distance lon1 0 lon2 lat2 =
     earth_radius * arccos (cos (radians lat2) * cos (radians lon2 - radians lon1))"
  by (simp add: great_circle_distance_def radians_def)

lemma great_circle_distance_along_equator:
  assumes "0 \<le> b - a" and "b - a \<le> 180"
  shows "great_circle_distance a 0 b 0 = earth_radius * radians (b - a)"
proof -
  have r: "0 \<le> radians (b - a)" "radians (b - a) \<le> pi"
    using assms by (simp_all add: radians_def)
  have z: "radians 0 = 0" by (simp add: radians_def)
  have e: "radians b - radians a = radians (b - a)"
    by (simp add: radians_def algebra_simps diff_divide_distrib)
  have "great_circle_distance a 0 b 0 = earth_radius * arccos (cos (radians b - radians a))"
    by (simp add: great_circle_distance_from_equator z)
  also have "\<dots> = earth_radius * arccos (cos (radians (b - a)))"
    by (simp only: e)
  also have "arccos (cos (radians (b - a))) = radians (b - a)"
    using r by (rule arccos_cos)
  finally show ?thesis .
qed

lemma great_circle_distance_commute:
  "great_circle_distance lon1 lat1 lon2 lat2 = great_circle_distance lon2 lat2 lon1 lat1"
proof -
  have "cos (radians lon2 - radians lon1) = cos (radians lon1 - radians lon2)"
    using cos_minus [of "radians lon1 - radians lon2"] by simp
  then show ?thesis by (simp add: great_circle_distance_def mult.commute)
qed

text \<open>
  On the unit sphere the hypotenuse of a right-angled triangle with two legs of length
  \<open>x\<close> is longer than one leg and shorter than the two together.
\<close>

lemma arccos_cos_square_bounds:
  assumes "0 < x" and "x < pi / 2"
  shows "x < arccos (cos x * cos x)" and "arccos (cos x * cos x) < 2 * x"
proof -
  have c0: "0 < cos x" using assms by (rule cos_gt_zero)
  have "cos x < cos 0" using assms pi_gt_zero by (intro cos_monotone_0_pi) simp_all
  then have c1: "cos x < 1" by simp
  from c0 c1 have sq: "cos x * cos x < cos x" by simp
  from c0 have sq0: "0 < cos x * cos x" by simp
  have "arccos (cos x) < arccos (cos x * cos x)"
    using sq sq0 c1 by (intro arccos_less_arccos) simp_all
  moreover have "arccos (cos x) = x" using assms pi_gt_zero by (intro arccos_cos) simp_all
  ultimately show "x < arccos (cos x * cos x)" by simp
  have d: "cos (2 * x) = 2 * (cos x * cos x) - 1"
    by (simp add: cos_double_cos power2_eq_square)
  from c0 c1 have "cos x * cos x < 1 * 1" by (intro mult_strict_mono) simp_all
  then have lt: "cos (2 * x) < cos x * cos x" unfolding d by simp
  have "- 1 \<le> cos (2 * x)" by (rule cos_ge_minus_one)
  with lt sq c1 have "arccos (cos x * cos x) < arccos (cos (2 * x))"
    by (intro arccos_less_arccos) simp_all
  moreover have "arccos (cos (2 * x)) = 2 * x" using assms by (intro arccos_cos) simp_all
  ultimately show "arccos (cos x * cos x) < 2 * x" by simp
qed

lemma station_row_pressure:
  assumes "station_row data vl ''pressure'' sl station = Inr (sl', row)"
  shows "row = vl \<and>
         (\<exists>la lo el. site_value data ''latitude'' station = Inr la \<and>
            site_value data ''longitude'' station = Inr lo \<and>
            site_value data ''elevation'' station = Inr el \<and>
            sl' = \<lparr>lats = lats sl @ [la], lons = lons sl @ [lo], elev = elev sl @ [el]\<rparr>)"
  using assms
  by (auto simp: station_row_def site_value_def split: option.splits sum.splits)

lemma station_row_other:
  assumes "key \<noteq> ''pressure''" and "station_row data vl key sl station = Inr (sl', row)"
  shows "sl' = sl \<and> interpolated_column data key vl station = Inr row"
  using assms
  by (auto simp: station_row_def interpolated_column_def split: option.splits sum.splits)

lemma station_rows_pressure:
  "station_rows data vl ''pressure'' sl ss = Inr (sl', rows) \<Longrightarrow>
   rows = replicate (length ss) vl \<and>
   (\<exists>las los els.
      sl' = \<lparr>lats = lats sl @ las, lons = lons sl @ los, elev = elev sl @ els\<rparr> \<and>
      list_all2 (\<lambda>s v. site_value data ''latitude'' s = Inr v) ss las \<and>
      list_all2 (\<lambda>s v. site_value data ''longitude'' s = Inr v) ss los \<and>
      list_all2 (\<lambda>s v. site_value data ''elevation'' s = Inr v) ss els)"
proof (induction ss arbitrary: sl sl' rows)
  case Nil
  then show ?case by simp
next
  case (Cons s ss)
  from Cons.prems obtain sl1 row rows' where
    r: "station_row data vl ''pressure'' sl s = Inr (sl1, row)"
    and rs: "station_rows data vl ''pressure'' sl1 ss = Inr (sl', rows')"
    and rows: "rows = row # rows'"
    by (auto split: sum.splits)
  from station_row_pressure [OF r] obtain la lo el where
    row: "row = vl"
    and v: "site_value data ''latitude'' s = Inr la" "site_value data ''longitude'' s = Inr lo"
      "site_value data ''elevation'' s = Inr el"
    and sl1: "sl1 = \<lparr>lats = lats sl @ [la], lons = lons sl @ [lo], elev = elev sl @ [el]\<rparr>"
    by blast
  from Cons.IH [OF rs] obtain las los els where
    rows': "rows' = replicate (length ss) vl"
    and sl': "sl' = \<lparr>lats = lats sl1 @ las, lons = lons sl1 @ los, elev = elev sl1 @ els\<rparr>"
    and l: "list_all2 (\<lambda>s v. site_value data ''latitude'' s = Inr v) ss las"
      "list_all2 (\<lambda>s v. site_value data ''longitude'' s = Inr v) ss los"
      "list_all2 (\<lambda>s v. site_value data ''elevation'' s = Inr v) ss els"
    by blast
  have "sl' = \<lparr>lats = lats sl @ (la # las), lons = lons sl @ (lo # los), elev = elev sl @ (el # els)\<rparr>"
    by (simp add: sl' sl1)
  moreover have "list_all2 (\<lambda>s v. site_value data ''latitude'' s = Inr v) (s # ss) (la # las)"
    "list_all2 (\<lambda>s v. site_value data ''longitude'' s = Inr v) (s # ss) (lo # los)"
    "list_all2 (\<lambda>s v. site_value data ''elevation'' s = Inr v) (s # ss) (el # els)"
    using v l by simp_all
  ultimately show ?case
    unfolding rows row rows' by (intro conjI exI [of _ "la # las"] exI [of _ "lo # los"] exI [of _ "el # els"]) simp_all
qed

lemma station_rows_other:
  "key \<noteq> ''pressure'' \<Longrightarrow> station_rows data vl key sl ss = Inr (sl', rows) \<Longrightarrow>
   sl' = sl \<and> list_all2 (\<lambda>s row. interpolated_column data key vl s = Inr row) ss rows"
proof (induction ss arbitrary: sl sl' rows)
  case Nil
  then show ?case by simp
next
  case (Cons s ss)
  from Cons.prems(2) obtain sl1 row rows' where
    r: "station_row data vl key sl s = Inr (sl1, row)"
    and rs: "station_rows data vl key sl1 ss = Inr (sl', rows')"
    and rows: "rows = row # rows'"
    by (auto split: sum.splits)
  from station_row_other [OF Cons.prems(1) r] Cons.IH [OF Cons.prems(1) rs]
  show ?case by (simp add: rows)
qed

lemma interpolate_keys_rows:
  "interpolate_keys data vl stns sl keys = Inr (sl', tmp_grid) \<Longrightarrow>
   map fst tmp_grid = keys \<and>
   list_all (\<lambda>(key, rows).
      if key = ''pressure'' then rows = replicate (length stns) vl
      else list_all2 (\<lambda>s row. interpolated_column data key vl s = Inr row) stns rows) tmp_grid"
proof (induction keys arbitrary: sl sl' tmp_grid)
  case Nil
  then show ?case by simp
next
  case (Cons key keys)
  from Cons.prems obtain sl1 rows tmp' where
    r: "station_rows data vl key sl stns = Inr (sl1, rows)"
    and rs: "interpolate_keys data vl stns sl1 keys = Inr (sl', tmp')"
    and tmp: "tmp_grid = (key, rows) # tmp'"
    by (auto split: sum.splits)
  have "if key = ''pressure'' then rows = replicate (length stns) vl
      else list_all2 (\<lambda>s row. interpolated_column data key vl s = Inr row) stns rows"
    using station_rows_pressure [of data vl sl stns sl1 rows] station_rows_other [of key data vl sl stns sl1 rows] r
    by auto
  with Cons.IH [OF rs] show ?case by (simp add: tmp)
qed

lemma fromkeys_acc_distinct:
  "distinct acc \<Longrightarrow> distinct (foldl (\<lambda>acc k. if k \<in> set acc then acc else acc @ [k]) acc ks)"
  by (induction ks arbitrary: acc) auto

lemma distinct_fromkeys: "distinct (fromkeys ks)"
  by (simp add: fromkeys_def fromkeys_acc_distinct)

lemma station_rows_sites:
  assumes "station_rows data vl key sl ss = Inr (sl', rows)"
  shows "if key = ''pressure''
         then \<exists>las los els.
                sl' = \<lparr>lats = lats sl @ las, lons = lons sl @ los, elev = elev sl @ els\<rparr> \<and>
                list_all2 (\<lambda>s v. site_value data ''latitude'' s = Inr v) ss las \<and>
                list_all2 (\<lambda>s v. site_value data ''longitude'' s = Inr v) ss los \<and>
                list_all2 (\<lambda>s v. site_value data ''elevation'' s = Inr v) ss els
         else sl' = sl"
  using station_rows_pressure [of data vl sl ss sl' rows]
    station_rows_other [of key data vl sl ss sl' rows] assms
  by auto

lemma interpolate_keys_sites:
  "distinct keys \<Longrightarrow> interpolate_keys data vl stns sl keys = Inr (sl', tmp_grid) \<Longrightarrow>
   (if ''pressure'' \<in> set keys
    then \<exists>las los els.
           sl' = \<lparr>lats = lats sl @ las, lons = lons sl @ los, elev = elev sl @ els\<rparr> \<and>
           list_all2 (\<lambda>s v. site_value data ''latitude'' s = Inr v) stns las \<and>
           list_all2 (\<lambda>s v. site_value data ''longitude'' s = Inr v) stns los \<and>
           list_all2 (\<lambda>s v. site_value data ''elevation'' s = Inr v) stns els
    else sl' = sl)"
proof (induction keys arbitrary: sl sl' tmp_grid)
  case Nil
  then show ?case by simp
next
  case (Cons key keys)
  from Cons.prems(2) obtain sl1 rows tmp' where
    r: "station_rows data vl key sl stns = Inr (sl1, rows)"
    and rs: "interpolate_keys data vl stns sl1 keys = Inr (sl', tmp')"
    by (auto split: sum.splits)
  from Cons.prems(1) have d: "distinct keys" and nk: "key \<notin> set keys" by simp_all
  note a = station_rows_sites [OF r] and b = Cons.IH [OF d rs]
  show ?case
  proof (cases "key = ''pressure''")
    case True
    with nk have "''pressure'' \<notin> set keys" by simp
    with b have "sl' = sl1" by simp
    with a True show ?thesis by simp
  next
    case False
    with a have sl1: "sl1 = sl" by simp
    from b False show ?thesis unfolding sl1 by auto
  qed
qed

lemma inv_all_replicate:
  assumes "length lons2 = n" and "length lats2 = n"
  shows "inv_all geod_inv (replicate n lon0) (replicate n lat0) lons2 lats2 =
           map (\<lambda>(lo, la). geod_inv lon0 lat0 lo la) (zip lons2 lats2)"
proof -
  have "zip (zip (replicate n lon0) (replicate n lat0)) (zip lons2 lats2) =
          map (\<lambda>p. ((lon0, lat0), p)) (zip lons2 lats2)"
    using assms by (intro nth_equalityI) simp_all
  then show ?thesis by (simp add: inv_all_def comp_def case_prod_unfold)
qed

text \<open>The steps behind a returned cross-section.\<close>

lemma radisonde_cross_section_returns:
  assumes "radisonde_cross_section geod_inv height_to_pressure_std griddata stns data start endp step = Inr cs"
  shows "\<exists>levels stn0 df0 sl tmp_grid lon0 lat0 d0 dn.
           np_arange start (endp - 1) (- step) = Inr levels \<and>
           getitem stns 0 = Inr stn0 \<and> data stn0 = Some df0 \<and>
           interpolate_keys data (map real_of_int levels) stns \<lparr>lats = [], lons = [], elev = []\<rparr>
               (fromkeys (take 8 (map fst df0))) = Inr (sl, tmp_grid) \<and>
           getitem (lons sl) 0 = Inr lon0 \<and> getitem (lats sl) 0 = Inr lat0 \<and>
           obs_distance cs = inv_all geod_inv (replicate (length stns) lon0)
                 (replicate (length stns) lat0) (lons sl) (lats sl) \<and>
           getitem (obs_distance cs) 0 = Inr d0 \<and> getitem (obs_distance cs) (- 1) = Inr dn \<and>
           elevation cs = map height_to_pressure_std (elev sl) \<and>
           (p_grid cs, x_grid cs) = np_meshgrid (map real_of_int levels) (np_linspace d0 dn 100) \<and>
           grid_keys griddata (snd (np_meshgrid (map real_of_int levels) (obs_distance cs)))
             (fst (np_meshgrid (map real_of_int levels) (obs_distance cs)))
             (x_grid cs) (p_grid cs) 100 (length levels) tmp_grid = Inr (grid_data cs)"
  using assms unfolding radisonde_cross_section_def assemble_def Let_def
  by (auto simp: length_np_linspace split: sum.splits option.splits prod.splits)

text \<open>What the builder returns as \<open>obs_distance\<close>, station by station.\<close>

lemma obs_distance_sites:
  assumes "radisonde_cross_section geod_inv height_to_pressure_std griddata stns data start endp step = Inr cs"
  shows "\<exists>los las. list_all2 (\<lambda>s v. site_value data ''longitude'' s = Inr v) stns los \<and>
           list_all2 (\<lambda>s v. site_value data ''latitude'' s = Inr v) stns las \<and>
           stns \<noteq> [] \<and>
           obs_distance cs = map (\<lambda>(lo, la). geod_inv (hd los) (hd las) lo la) (zip los las)"
proof -
  from radisonde_cross_section_returns [OF assms]
  obtain levels stn0 and df0 :: dataframe and sl tmp_grid lon0 lat0 where
    s0: "getitem stns 0 = Inr stn0"
    and ik: "interpolate_keys data (map real_of_int levels) stns \<lparr>lats = [], lons = [], elev = []\<rparr>
               (fromkeys (take 8 (map fst df0))) = Inr (sl, tmp_grid)"
    and lon0: "getitem (lons sl) 0 = Inr lon0" and lat0: "getitem (lats sl) 0 = Inr lat0"
    and dist: "obs_distance cs = inv_all geod_inv (replicate (length stns) lon0)
                 (replicate (length stns) lat0) (lons sl) (lats sl)"
    by blast
  from s0 have ne: "stns \<noteq> []" by (auto simp: getitem_def)
  from lon0 have lne: "lons sl \<noteq> []" by (auto simp: getitem_def)
  have p: "''pressure'' \<in> set (fromkeys (take 8 (map fst df0)))"
  proof (rule ccontr)
    assume "\<not> ?thesis"
    with interpolate_keys_sites [OF distinct_fromkeys ik] have "lons sl = []" by simp
    with lne show False by simp
  qed
  with interpolate_keys_sites [OF distinct_fromkeys ik] obtain las los els where
    sl: "sl = \<lparr>lats = las, lons = los, elev = els\<rparr>"
    and la: "list_all2 (\<lambda>s v. site_value data ''latitude'' s = Inr v) stns las"
    and lo: "list_all2 (\<lambda>s v. site_value data ''longitude'' s = Inr v) stns los"
    by auto
  have len: "length los = length stns" "length las = length stns"
    using list_all2_lengthD [OF lo] list_all2_lengthD [OF la] by simp_all
  have "los \<noteq> []" and "las \<noteq> []" using ne len by auto
  then have h: "lon0 = hd los" "lat0 = hd las"
    using lon0 lat0 by (simp_all add: sl getitem_first)
  show ?thesis
    using la lo ne inv_all_replicate [OF len, of geod_inv lon0 lat0]
    by (intro exI [of _ los] exI [of _ las]) (simp add: dist sl h)
qed

lemma fromkeys_example:
  "fromkeys [''pressure'', ''temperature'', ''latitude'', ''longitude'', ''elevation''] =
     [''pressure'', ''temperature'', ''latitude'', ''longitude'', ''elevation'']"
  by (simp add: fromkeys_def)

lemmas example_eval =
  radisonde_cross_section_def assemble_def np_arange_def arange_len_def getitem_def
  example_soundings_def sounding_def fromkeys_example station_row_def first_of_def column_def
  vertical_interpolate_map inv_all_def np_meshgrid_def flat_griddata_def
  assign_all_def broadcastable_def stretch_def length_np_linspace list_all_iff
  upt_conv_Cons Let_def

lemma example_returns:
  "\<exists>cs. radisonde_cross_section great_circle_distance (\<lambda>h. h) flat_griddata
          [''AAA'', ''BBB''] example_soundings 1000 900 50 = Inr cs"
  by (simp add: example_eval)

text \<open>The keys of the returned grids.\<close>

lemma returned_keys:
  assumes "radisonde_cross_section geod_inv height_to_pressure_std griddata stns data start endp step = Inr cs"
  shows "stns \<noteq> [] \<and>
         (\<exists>df0. data (stns ! 0) = Some df0 \<and>
            map fst (grid_data cs) = fromkeys (take 8 (map fst df0))) \<and>
         ''pressure'' \<in> set (map fst (grid_data cs))"
proof -
  from radisonde_cross_section_returns [OF assms]
  obtain levels stn0 and df0 :: dataframe and sl tmp_grid lon0 where
    s0: "getitem stns 0 = Inr stn0" and df0: "data stn0 = Some df0"
    and ik: "interpolate_keys data (map real_of_int levels) stns \<lparr>lats = [], lons = [], elev = []\<rparr>
               (fromkeys (take 8 (map fst df0))) = Inr (sl, tmp_grid)"
    and lon0: "getitem (lons sl) 0 = Inr lon0"
    and gk: "grid_keys griddata (snd (np_meshgrid (map real_of_int levels) (obs_distance cs)))
             (fst (np_meshgrid (map real_of_int levels) (obs_distance cs)))
             (x_grid cs) (p_grid cs) 100 (length levels) tmp_grid = Inr (grid_data cs)"
    by blast
  from s0 have ne: "stns \<noteq> []" by (auto simp: getitem_def)
  with s0 have stn0: "stn0 = stns ! 0" by (simp add: getitem_first hd_conv_nth)
  from interpolate_keys_rows [OF ik] grid_keys_names [OF gk]
  have keys: "map fst (grid_data cs) = fromkeys (take 8 (map fst df0))" by simp
  from lon0 have lne: "lons sl \<noteq> []" by (auto simp: getitem_def)
  have p: "''pressure'' \<in> set (fromkeys (take 8 (map fst df0)))"
  proof (rule ccontr)
    assume "\<not> ?thesis"
    with interpolate_keys_sites [OF distinct_fromkeys ik] have "lons sl = []" by simp
    with lne show False by simp
  qed
  from ne df0 keys p show ?thesis unfolding stn0 by simp
qed

subsection \<open>Stations along a path\<close>

lemma coordinates_sites:
  "list_all2 (\<lambda>s v. site_value data ''longitude'' s = Inr v) stns los \<Longrightarrow>
   list_all2 (\<lambda>s v. site_value data ''latitude'' s = Inr v) stns las \<Longrightarrow>
   coordinates data stns = zip los las"
  by (induction stns arbitrary: los las) (auto simp: coordinates_def list_all2_Cons1)

lemma straight_sorted:
  assumes nonneg: "\<forall>lon1 lat1 lon2 lat2. 0 \<le> geod_inv lon1 lat1 lon2 lat2"
    and straight: "straight_from_first geod_inv ps"
  shows "sorted (map (leg_length geod_inv (ps ! 0)) ps)"
  unfolding sorted_iff_nth_Suc
proof (intro allI impI)
  fix i assume "Suc i < length (map (leg_length geod_inv (ps ! 0)) ps)"
  then have i: "Suc i < length ps" by simp
  then have "i \<in> set [0 ..< length ps - 1]" by simp
  with straight have "on_leg geod_inv (ps ! 0) (ps ! Suc i) (ps ! i)"
    unfolding straight_from_first_def list_all_iff by blast
  then have "leg_length geod_inv (ps ! 0) (ps ! i) + leg_length geod_inv (ps ! i) (ps ! Suc i) =
      leg_length geod_inv (ps ! 0) (ps ! Suc i)"
    by (simp add: on_leg_def)
  moreover have "0 \<le> leg_length geod_inv (ps ! i) (ps ! Suc i)"
    using nonneg by (simp add: leg_length_def)
  ultimately have "leg_length geod_inv (ps ! 0) (ps ! i) \<le> leg_length geod_inv (ps ! 0) (ps ! Suc i)"
    by arith
  with i show "map (leg_length geod_inv (ps ! 0)) ps ! i \<le> map (leg_length geod_inv (ps ! 0)) ps ! Suc i"
    by simp
qed

lemma bent_path_distances:
  "0 < great_circle_distance 0 0 10 0"
  "great_circle_distance 0 0 5 5 + great_circle_distance 5 5 10 0 \<noteq> great_circle_distance 0 0 10 0"
  "0 < great_circle_distance 10 0 5 5"
  "great_circle_distance 10 0 0 0 + great_circle_distance 0 0 5 5 \<noteq> great_circle_distance 10 0 5 5"
  "great_circle_distance 0 0 5 5 < great_circle_distance 0 0 10 0"
proof -
  define x where "x = radians 5"
  define a where "a = arccos (cos x * cos x)"
  have x0: "0 < x" by (simp add: x_def radians_def)
  have "5 * pi / 180 < pi / 2" using pi_gt_zero by simp
  then have x1: "x < pi / 2" by (simp add: x_def radians_def)
  have xa: "x < a" and ax: "a < 2 * x"
    unfolding a_def using x0 x1 by (rule arccos_cos_square_bounds)+
  have r: "0 < earth_radius" by (simp add: earth_radius_def)
  have z: "radians 0 = 0" and t: "radians 10 = 2 * x"
    by (simp_all add: radians_def x_def)
  have d01: "great_circle_distance 0 0 10 0 = earth_radius * (2 * x)"
    using great_circle_distance_along_equator [where a = 0 and b = 10] by (simp add: t)
  have d02: "great_circle_distance 0 0 5 5 = earth_radius * a"
    unfolding great_circle_distance_from_equator a_def x_def z by simp
  have "cos (x - 2 * x) = cos x" using cos_minus [of x] by simp
  then have d12: "great_circle_distance 10 0 5 5 = earth_radius * a"
    unfolding great_circle_distance_from_equator a_def t by (simp add: x_def)
  have d21: "great_circle_distance 5 5 10 0 = earth_radius * a"
    using d12 great_circle_distance_commute [of 5 5 10 0] by simp
  have d10: "great_circle_distance 10 0 0 0 = earth_radius * (2 * x)"
    using d01 great_circle_distance_commute [of 10 0 0 0] by simp
  from r x0 have p1: "0 < earth_radius * (2 * x)" by simp
  from r xa x0 have p2: "0 < earth_radius * a" by simp
  from r xa have p3: "earth_radius * x < earth_radius * a" by simp
  from r ax have p4: "earth_radius * a < earth_radius * (2 * x)" by simp
  have e: "earth_radius * (2 * x) = earth_radius * x + earth_radius * x"
    by (simp add: algebra_simps)
  show "0 < great_circle_distance 0 0 10 0" unfolding d01 by (rule p1)
  show "great_circle_distance 0 0 5 5 + great_circle_distance 5 5 10 0 \<noteq> great_circle_distance 0 0 10 0"
    unfolding d02 d21 d01 e using p3 by linarith
  show "0 < great_circle_distance 10 0 5 5" unfolding d12 by (rule p2)
  show "great_circle_distance 10 0 0 0 + great_circle_distance 0 0 5 5 \<noteq> great_circle_distance 10 0 5 5"
    unfolding d10 d02 d12 using p1 by linarith
  show "great_circle_distance 0 0 5 5 < great_circle_distance 0 0 10 0"
    unfolding d02 d01 by (rule p4)
qed

lemma bent_path_returns:
  "\<exists>cs. radisonde_cross_section great_circle_distance (\<lambda>h. h) flat_griddata
          [''AAA'', ''BBB'', ''DDD''] bent_path_soundings 1000 900 50 = Inr cs \<and>
        obs_distance cs = [great_circle_distance 0 0 0 0, great_circle_distance 0 0 10 0,
                           great_circle_distance 0 0 5 5]"
  by (simp add: example_eval bent_path_soundings_def)

lemma bent_path_coordinates:
  "coordinates bent_path_soundings [''AAA'', ''BBB'', ''DDD''] = [(0, 0), (10, 0), (5, 5)]"
  by (simp add: coordinates_def site_value_def first_of_def bent_path_soundings_def
      example_soundings_def sounding_def)

lemma bent_path_in_order:
  "in_path_order great_circle_distance [(0, 0), (10, 0), (5, 5)]"
  unfolding in_path_order_def on_leg_def leg_length_def
  using bent_path_distances by (simp add: upt_conv_Cons)

lemma straight_path_returns:
  "\<exists>cs. radisonde_cross_section great_circle_distance (\<lambda>h. h) flat_griddata
          [''AAA'', ''CCC'', ''BBB''] example_soundings 1000 900 50 = Inr cs"
  by (simp add: example_eval)

lemma straight_path_coordinates:
  "coordinates example_soundings [''AAA'', ''CCC'', ''BBB''] = [(0, 0), (5, 0), (10, 0)]"
  by (simp add: coordinates_def site_value_def first_of_def example_soundings_def sounding_def)

lemma straight_path_straight:
  "straight_from_first great_circle_distance [(0, 0), (5, 0), (10, 0)]"
proof -
  have a: "great_circle_distance 0 0 5 0 = earth_radius * radians 5"
    using great_circle_distance_along_equator [where a = 0 and b = 5] by simp
  have b: "great_circle_distance 5 0 10 0 = earth_radius * radians 5"
    using great_circle_distance_along_equator [where a = 5 and b = 10] by simp
  have c: "great_circle_distance 0 0 10 0 = earth_radius * radians 10"
    using great_circle_distance_along_equator [where a = 0 and b = 10] by simp
  have "great_circle_distance 0 0 5 0 + great_circle_distance 5 0 10 0 =
      great_circle_distance 0 0 10 0"
    unfolding a b c by (simp add: radians_def algebra_simps)
  then show ?thesis
    unfolding straight_from_first_def on_leg_def leg_length_def
    by (simp add: upt_conv_Cons great_circle_distance_self)
qed

text \<open>
  Three stations on the equator: listed from west to east they are in path order; listed
  with the middle one last the path doubles back over its first leg, and they are not.
\<close>

lemma equator_distances:
  "great_circle_distance 0 0 5 0 = earth_radius * radians 5"
  "great_circle_distance 5 0 10 0 = earth_radius * radians 5"
  "great_circle_distance 0 0 10 0 = earth_radius * radians 5 + earth_radius * radians 5"
  "great_circle_distance 10 0 5 0 = earth_radius * radians 5"
  "great_circle_distance 5 0 0 0 = earth_radius * radians 5"
  "0 < earth_radius * radians 5"
proof -
  show a: "great_circle_distance 0 0 5 0 = earth_radius * radians 5"
    using great_circle_distance_along_equator [where a = 0 and b = 5] by simp
  show b: "great_circle_distance 5 0 10 0 = earth_radius * radians 5"
    using great_circle_distance_along_equator [where a = 5 and b = 10] by simp
  have "great_circle_distance 0 0 10 0 = earth_radius * radians 10"
    using great_circle_distance_along_equator [where a = 0 and b = 10] by simp
  also have "\<dots> = earth_radius * radians 5 + earth_radius * radians 5"
    by (simp add: radians_def algebra_simps)
  finally show "great_circle_distance 0 0 10 0 = earth_radius * radians 5 + earth_radius * radians 5" .
  show "great_circle_distance 10 0 5 0 = earth_radius * radians 5"
    using b great_circle_distance_commute [of 10 0 5 0] by simp
  show "great_circle_distance 5 0 0 0 = earth_radius * radians 5"
    using a great_circle_distance_commute [of 5 0 0 0] by simp
  show "0 < earth_radius * radians 5"
    by (simp add: earth_radius_def radians_def)
qed

lemma straight_path_in_order:
  "in_path_order great_circle_distance [(0, 0), (5, 0), (10, 0)]"
proof -
  define u where "u = earth_radius * radians 5"
  have u: "0 < u" unfolding u_def by (rule equator_distances(6))
  note d = equator_distances(1-5) [folded u_def]
  have "0 < great_circle_distance 0 0 5 0" "0 < great_circle_distance 5 0 10 0"
    "great_circle_distance 0 0 10 0 + great_circle_distance 10 0 5 0 \<noteq> great_circle_distance 0 0 5 0"
    "great_circle_distance 5 0 0 0 + great_circle_distance 0 0 10 0 \<noteq> great_circle_distance 5 0 10 0"
    unfolding d using u by linarith+
  then show ?thesis
    unfolding in_path_order_def on_leg_def leg_length_def by (simp add: upt_conv_Cons)
qed

lemma doubling_back_not_in_order:
  "\<not> in_path_order great_circle_distance [(0, 0), (10, 0), (5, 0)]"
proof -
  have "great_circle_distance 0 0 5 0 + great_circle_distance 5 0 10 0 = great_circle_distance 0 0 10 0"
    unfolding equator_distances(1-3) by simp
  then show ?thesis
    unfolding in_path_order_def on_leg_def leg_length_def by (simp add: upt_conv_Cons)
qed

section \<open>The claims about the cross-section builder\<close>

text \<open>
  C3, as stated, fails: for the station AAA (pressures 1000 and 500) and the grid
  1000, 550, 100, the row stored for the variable \<^verbatim>\<open>pressure\<close> is not the vertical
  interpolation of the station's pressures against themselves.
\<close>

theorem pressure_column_not_interpolated:
  "\<exists>sl tmp_grid rows.
      interpolate_keys example_soundings [1000, 550, 100] [''AAA'']
        \<lparr>lats = [], lons = [], elev = []\<rparr> [''pressure''] = Inr (sl, tmp_grid) \<and>
      map_of tmp_grid ''pressure'' = Some rows \<and>
      interpolated_column example_soundings ''pressure'' [1000, 550, 100] ''AAA'' \<noteq> Inr (rows ! 0)"
  by (simp add: station_row_def first_of_def column_def example_soundings_def sounding_def
      interpolated_column_def vertical_interpolate_map)

text \<open>
  C3, amended: in \<^verbatim>\<open>tmp_grid\<close> every variable has one row per station; the row of the
  variable \<^verbatim>\<open>pressure\<close> is the standard vertical grid itself, and the row of any other
  variable is the vertical interpolator applied to the station's pressure samples and its
  samples of that variable.
\<close>

theorem tmp_grid_columns:
  assumes "interpolate_keys data vertical_levels stns sl keys = Inr (sl', tmp_grid)"
    and "(key, rows) \<in> set tmp_grid" and "loc < length stns"
  shows "length rows = length stns \<and>
         (if key = ''pressure'' then rows ! loc = vertical_levels
          else interpolated_column data key vertical_levels (stns ! loc) = Inr (rows ! loc))"
proof -
  from interpolate_keys_rows [OF assms(1)] assms(2)
  have r: "if key = ''pressure'' then rows = replicate (length stns) vertical_levels
      else list_all2 (\<lambda>s row. interpolated_column data key vertical_levels s = Inr row) stns rows"
    by (auto simp: list_all_iff)
  show ?thesis
  proof (cases "key = ''pressure''")
    case True
    with r assms(3) show ?thesis by simp
  next
    case False
    with r have l: "list_all2 (\<lambda>s row. interpolated_column data key vertical_levels s = Inr row) stns rows"
      by simp
    from list_all2_lengthD [OF l] list_all2_nthD [OF l assms(3)] False show ?thesis by simp
  qed
qed

theorem tmp_grid_columns_witness:
  "\<exists>sl tmp_grid p t.
      interpolate_keys example_soundings [1000, 950, 900] [''AAA'', ''BBB'']
        \<lparr>lats = [], lons = [], elev = []\<rparr> [''pressure'', ''temperature''] = Inr (sl, tmp_grid) \<and>
      (''pressure'', p) \<in> set tmp_grid \<and> (''temperature'', t) \<in> set tmp_grid \<and>
      length p = 2 \<and> p ! 1 = [1000, 950, 900] \<and> length t = 2 \<and>
      interpolated_column example_soundings ''temperature'' [1000, 950, 900] ''BBB'' = Inr (t ! 1)"
proof -
  obtain sl tmp_grid p t where
    ik: "interpolate_keys example_soundings [1000, 950, 900] [''AAA'', ''BBB'']
        \<lparr>lats = [], lons = [], elev = []\<rparr> [''pressure'', ''temperature''] = Inr (sl, tmp_grid)"
    and p: "(''pressure'', p) \<in> set tmp_grid" and t: "(''temperature'', t) \<in> set tmp_grid"
    by (simp add: station_row_def first_of_def column_def example_soundings_def sounding_def
      vertical_interpolate_map)
  from tmp_grid_columns [OF ik p, of 1] tmp_grid_columns [OF ik t, of 1]
  have "length p = 2 \<and> p ! 1 = [1000, 950, 900] \<and> length t = 2 \<and>
      interpolated_column example_soundings ''temperature'' [1000, 950, 900] ''BBB'' = Inr (t ! 1)"
    by simp
  with ik p t show ?thesis by blast
qed

text \<open>
  C4, as stated, fails: the stations AAA, BBB, DDD at (longitude, latitude) (0, 0), (10, 0)
  and (5, 5) are supplied in path order, the path running east along the equator and then
  turning back to the north-west, and the third distance from the first station is smaller
  than the second.
\<close>

theorem distance_not_monotone:
  "\<exists>cs. radisonde_cross_section great_circle_distance (\<lambda>h. h) flat_griddata
          [''AAA'', ''BBB'', ''DDD''] bent_path_soundings 1000 900 50 = Inr cs \<and>
        coordinates bent_path_soundings [''AAA'', ''BBB'', ''DDD''] = [(0, 0), (10, 0), (5, 5)] \<and>
        in_path_order great_circle_distance
          (coordinates bent_path_soundings [''AAA'', ''BBB'', ''DDD'']) \<and>
        obs_distance cs ! 2 < obs_distance cs ! 1"
proof -
  from bent_path_returns obtain cs where
    cs: "radisonde_cross_section great_circle_distance (\<lambda>h. h) flat_griddata
          [''AAA'', ''BBB'', ''DDD''] bent_path_soundings 1000 900 50 = Inr cs"
    and d: "obs_distance cs = [great_circle_distance 0 0 0 0, great_circle_distance 0 0 10 0,
                           great_circle_distance 0 0 5 5]"
    by blast
  have "obs_distance cs ! 2 < obs_distance cs ! 1"
    unfolding d using bent_path_distances(5) by simp
  with cs bent_path_in_order show ?thesis
    unfolding bent_path_coordinates by (intro exI [of _ cs]) simp
qed

text \<open>
  C4, amended: for a distance function that is 0 between a point and itself and never
  negative, the distance array of a returned cross-section has one entry per station, each
  the distance from the first station to that station; the first entry is 0 and no entry
  is negative; and the array is non-decreasing when the path is straight from the first
  station, every station lying on the great-circle arc from the first station to its
  successor.
\<close>

theorem distance_axis:
  assumes self: "\<forall>lon lat. geod_inv lon lat lon lat = 0"
    and nonneg: "\<forall>lon1 lat1 lon2 lat2. 0 \<le> geod_inv lon1 lat1 lon2 lat2"
    and ret: "radisonde_cross_section geod_inv height_to_pressure_std griddata stns data start endp step = Inr cs"
  shows "stns \<noteq> [] \<and> length (obs_distance cs) = length stns \<and>
         obs_distance cs ! 0 = 0 \<and> list_all (\<lambda>d. 0 \<le> d) (obs_distance cs) \<and>
         (\<exists>lon0 lat0.
            site_value data ''longitude'' (stns ! 0) = Inr lon0 \<and>
            site_value data ''latitude'' (stns ! 0) = Inr lat0 \<and>
            list_all2 (\<lambda>s d. \<exists>lon lat. site_value data ''longitude'' s = Inr lon \<and>
                          site_value data ''latitude'' s = Inr lat \<and>
                          d = geod_inv lon0 lat0 lon lat) stns (obs_distance cs)) \<and>
         (straight_from_first geod_inv (coordinates data stns) \<longrightarrow> sorted (obs_distance cs))"
proof -
  from obs_distance_sites [OF ret] obtain los las where
    lo: "list_all2 (\<lambda>s v. site_value data ''longitude'' s = Inr v) stns los"
    and la: "list_all2 (\<lambda>s v. site_value data ''latitude'' s = Inr v) stns las"
    and ne: "stns \<noteq> []"
    and d: "obs_distance cs = map (\<lambda>(lo, la). geod_inv (hd los) (hd las) lo la) (zip los las)"
    by blast
  have len: "length los = length stns" "length las = length stns"
    using list_all2_lengthD [OF lo] list_all2_lengthD [OF la] by simp_all
  with ne have pos: "0 < length los" "0 < length las" "0 < length stns" by auto
  then have hd: "hd los = los ! 0" "hd las = las ! 0" by (simp_all add: hd_conv_nth)
  have first: "obs_distance cs ! 0 = 0"
    using pos self by (simp add: d hd)
  have all: "list_all (\<lambda>d. 0 \<le> d) (obs_distance cs)"
    using nonneg by (simp add: d list_all_iff case_prod_unfold)
  have s0: "site_value data ''longitude'' (stns ! 0) = Inr (hd los)"
    "site_value data ''latitude'' (stns ! 0) = Inr (hd las)"
    using list_all2_nthD [OF lo pos(3)] list_all2_nthD [OF la pos(3)] by (simp_all add: hd)
  have each: "list_all2 (\<lambda>s d. \<exists>lon lat. site_value data ''longitude'' s = Inr lon \<and>
                          site_value data ''latitude'' s = Inr lat \<and>
                          d = geod_inv (hd los) (hd las) lon lat) stns (obs_distance cs)"
    unfolding list_all2_conv_all_nth
  proof (intro conjI allI impI)
    show "length stns = length (obs_distance cs)" using len by (simp add: d)
    fix i assume i: "i < length stns"
    from list_all2_nthD [OF lo i] list_all2_nthD [OF la i] i len
    show "\<exists>lon lat. site_value data ''longitude'' (stns ! i) = Inr lon \<and>
            site_value data ''latitude'' (stns ! i) = Inr lat \<and>
            obs_distance cs ! i = geod_inv (hd los) (hd las) lon lat"
      by (simp add: d)
  qed
  have c: "coordinates data stns = zip los las"
    using lo la by (rule coordinates_sites)
  have p0: "zip los las ! 0 = (hd los, hd las)"
    using pos by (simp add: hd)
  have dl: "obs_distance cs = map (leg_length geod_inv (zip los las ! 0)) (zip los las)"
    unfolding d p0 by (simp add: leg_length_def case_prod_unfold)
  have mono: "straight_from_first geod_inv (coordinates data stns) \<longrightarrow> sorted (obs_distance cs)"
    unfolding c dl using straight_sorted [OF nonneg] by blast
  from ne len first all s0 each mono show ?thesis
    by (intro conjI exI [of _ "hd los"] exI [of _ "hd las"]) (simp_all add: d)
qed

theorem distance_axis_witness:
  "\<exists>cs. radisonde_cross_section great_circle_distance (\<lambda>h. h) flat_griddata
          [''AAA'', ''CCC'', ''BBB''] example_soundings 1000 900 50 = Inr cs \<and>
        length (obs_distance cs) = 3 \<and> obs_distance cs ! 0 = 0 \<and>
        list_all (\<lambda>d. 0 \<le> d) (obs_distance cs) \<and>
        in_path_order great_circle_distance
          (coordinates example_soundings [''AAA'', ''CCC'', ''BBB'']) \<and>
        straight_from_first great_circle_distance
          (coordinates example_soundings [''AAA'', ''CCC'', ''BBB'']) \<and>
        sorted (obs_distance cs)"
proof -
  from straight_path_returns obtain cs where
    cs: "radisonde_cross_section great_circle_distance (\<lambda>h. h) flat_griddata
          [''AAA'', ''CCC'', ''BBB''] example_soundings 1000 900 50 = Inr cs"
    by blast
  have self: "\<forall>lon lat. great_circle_distance lon lat lon lat = 0"
    by (simp add: great_circle_distance_self)
  have nonneg: "\<forall>lon1 lat1 lon2 lat2. 0 \<le> great_circle_distance lon1 lat1 lon2 lat2"
    by (simp add: great_circle_distance_nonneg)
  have st: "straight_from_first great_circle_distance
          (coordinates example_soundings [''AAA'', ''CCC'', ''BBB''])"
    unfolding straight_path_coordinates by (rule straight_path_straight)
  have po: "in_path_order great_circle_distance
          (coordinates example_soundings [''AAA'', ''CCC'', ''BBB''])"
    unfolding straight_path_coordinates by (rule straight_path_in_order)
  from distance_axis [OF self nonneg cs] st po cs show ?thesis
    by (intro exI [of _ cs]) simp
qed

text \<open>
  C6. A returned cross-section has one grid for each variable, the variables being the
  first eight column names of the first station's sounding (the pressure among them), and
  every grid has exactly 100 rows, one per horizontal sample point, each row with as many
  entries as the vertical grid has levels, whatever the number of stations and whatever
  \<^verbatim>\<open>griddata\<close> returns.
\<close>

theorem grid_shape:
  assumes "radisonde_cross_section geod_inv height_to_pressure_std griddata stns data start endp step = Inr cs"
  shows "(\<exists>df0. data (stns ! 0) = Some df0 \<and>
            map fst (grid_data cs) = fromkeys (take 8 (map fst df0))) \<and>
         ''pressure'' \<in> set (map fst (grid_data cs)) \<and>
         list_all (\<lambda>(key, g). length g = 100 \<and>
           list_all (\<lambda>row. length row = arange_len start (endp - 1) (- step)) g) (grid_data cs)"
proof -
  from radisonde_cross_section_returns [OF assms] obtain levels tmp_grid where
    lv: "np_arange start (endp - 1) (- step) = Inr levels"
    and gk: "grid_keys griddata (snd (np_meshgrid (map real_of_int levels) (obs_distance cs)))
             (fst (np_meshgrid (map real_of_int levels) (obs_distance cs)))
             (x_grid cs) (p_grid cs) 100 (length levels) tmp_grid = Inr (grid_data cs)"
    by blast
  from grid_keys_shape [OF gk] have
    "list_all (\<lambda>(key, g). length g = 100 \<and>
           list_all (\<lambda>row. length row = arange_len start (endp - 1) (- step)) g) (grid_data cs)"
    by (simp add: length_np_arange [OF lv])
  with returned_keys [OF assms] show ?thesis by simp
qed

theorem grid_shape_witness:
  "\<exists>cs. radisonde_cross_section great_circle_distance (\<lambda>h. h) flat_griddata
          [''AAA'', ''BBB''] example_soundings 1000 900 50 = Inr cs \<and>
        map fst (grid_data cs) =
          [''pressure'', ''temperature'', ''latitude'', ''longitude'', ''elevation''] \<and>
        list_all (\<lambda>(key, g). length g = 100 \<and> list_all (\<lambda>row. length row = 3) g) (grid_data cs)"
proof -
  from example_returns obtain cs where
    cs: "radisonde_cross_section great_circle_distance (\<lambda>h. h) flat_griddata
          [''AAA'', ''BBB''] example_soundings 1000 900 50 = Inr cs" ..
  from grid_shape [OF cs] have
    "map fst (grid_data cs) =
          [''pressure'', ''temperature'', ''latitude'', ''longitude'', ''elevation''] \<and>
     list_all (\<lambda>(key, g). length g = 100 \<and> list_all (\<lambda>row. length row = 3) g) (grid_data cs)"
    by (simp add: arange_len_def example_soundings_def sounding_def fromkeys_example)
  with cs show ?thesis by (intro exI [of _ cs]) simp
qed

text \<open>
  C8. The great-circle distance between two stations at identical coordinates is 0, and
  the distance from A to B equals the distance from B to A.
\<close>

theorem great_circle_distance_zero_symmetric:
  "great_circle_distance lon lat lon lat = 0 \<and>
   great_circle_distance lon1 lat1 lon2 lat2 = great_circle_distance lon2 lat2 lon1 lat1"
proof -
  have "cos (radians lon2 - radians lon1) = cos (radians lon1 - radians lon2)"
    using cos_minus [of "radians lon1 - radians lon2"] by simp
  then have "great_circle_distance lon1 lat1 lon2 lat2 = great_circle_distance lon2 lat2 lon1 lat1"
    by (simp add: great_circle_distance_def mult.commute)
  then show ?thesis by (simp add: great_circle_distance_self)
qed

section \<open>Properties of the store programs\<close>

subsection \<open>The vertical interpolator on the store\<close>

lemmas prog_defs =
  return_def lift_def and_then_def read_def new_array_def new_matrix_def put_mask_def
  np_log_h_def np_interp_h_def item_def levels_above_def levels_below_def

lemma contents_append:
  "base a < length h \<Longrightarrow> contents (h @ bs) a = contents h a"
  by (simp add: contents_def vec_def nth_append)

lemma contents_flip: "contents h (flip a) = rev (contents h a)"
  by (simp add: contents_def flip_def)

lemma vertical_interpolate_h_frame:
  "take (length h) (snd (vertical_interpolate_h a b c h)) = h"
  by (simp add: vertical_interpolate_h_def prog_defs Let_def flip_def split: sum.splits prod.splits)

subsection \<open>Running a program step by step\<close>

lemma run_return: "and_then (return x) f h = f x h"
  by (simp add: and_then_def return_def)

lemma run_lift:
  "and_then (lift (Inr x)) f h = f x h" "and_then (lift (Inl e)) f h = (Inl e, h)"
  by (simp_all add: and_then_def lift_def)

lemma run_read: "and_then (read a) f h = f (contents h a) h"
  by (simp add: and_then_def read_def)

lemma run_new_array:
  "and_then (new_array xs) f h = f \<lparr>base = length h, reversed = False\<rparr> (h @ [Vec xs])"
  by (simp add: and_then_def new_array_def)

lemma run_new_matrix: "and_then (new_matrix rows) f h = f (length h) (h @ [Mat rows])"
  by (simp add: and_then_def new_matrix_def)

lemma run_put_mask:
  "and_then (put_mask a msk v) f h =
     f () (h[base a := Vec (if reversed a then rev (assign_mask msk v (contents h a))
                             else assign_mask msk v (contents h a))])"
  by (simp add: and_then_def put_mask_def)

lemma and_then_assoc: "and_then (and_then m f) g = and_then m (\<lambda>x. and_then (f x) g)"
  by (rule ext) (simp add: and_then_def split: prod.splits sum.splits)

lemmas run = run_return run_lift run_read run_new_array run_new_matrix run_put_mask and_then_assoc

lemma contents_beyond:
  "length h \<le> n \<Longrightarrow>
   contents (h @ bs) \<lparr>base = n, reversed = rv\<rparr> =
     (case bs ! (n - length h) of Vec xs \<Rightarrow> if rv then rev xs else xs | Mat rows \<Rightarrow> [])"
  by (simp add: contents_def vec_def nth_append split: buffer.splits)

lemma flip_new: "flip \<lparr>base = n, reversed = rv\<rparr> = \<lparr>base = n, reversed = \<not> rv\<rparr>"
  by (simp add: flip_def)

lemma base_flip: "base (flip a) = base a"
  by (simp add: flip_def)

lemma contents_update_other:
  "base a \<noteq> n \<Longrightarrow> contents (h[n := b]) a = contents h a"
  by (simp add: contents_def vec_def)

lemma vertical_interpolate_h_refines:
  assumes "base a < length h" and "base b < length h" and "base c < length h"
  shows "vertical_interpolate_h a b c h =
     (case vertical_interpolate (contents h a) (contents h b) (contents h c) of
        Inl e \<Rightarrow> (Inl e, h @ [Vec (np_log (contents h a)), Vec (np_log (contents h c))])
      | Inr out \<Rightarrow>
          (Inr \<lparr>base = length h + 2, reversed = True\<rparr>,
           h @ [Vec (np_log (contents h a)), Vec (np_log (contents h c)), Vec (rev out)]))"
proof -
  have ap: "contents (h @ bs) a = contents h a" "contents (h @ bs) b = contents h b"
    "contents (h @ bs) c = contents h c" for bs
    using assms by (simp_all add: contents_append)
  have up: "contents ((h @ bs)[n := x]) a = contents h a" "contents ((h @ bs)[n := x]) b = contents h b"
    "contents ((h @ bs)[n := x]) c = contents h c" if "length h \<le> n" for bs n x
    using assms that by (simp_all add: contents_update_other ap)
  show ?thesis
  proof (cases "np_interp (rev (np_log (contents h c))) (rev (np_log (contents h a))) (rev (contents h b))")
    case (Inl e)
    then show ?thesis
      by (simp add: vertical_interpolate_h_def vertical_interpolate_def np_log_h_def np_interp_h_def
          run flip_new contents_flip ap contents_beyond)
  next
    case (Inr r)
    from Inr have ne: "contents h a \<noteq> []" and len: "length (contents h b) = length (contents h a)"
      by (auto simp: np_interp_def np_log_def split: if_splits)
    then have neb: "contents h b \<noteq> []" by auto
    show ?thesis
      using Inr
      by (simp add: vertical_interpolate_h_def vertical_interpolate_def np_log_h_def np_interp_h_def
          item_def levels_above_def levels_below_def return_def Let_def
          run flip_new contents_flip ap up contents_beyond getitem_first getitem_last ne neb
          list_update_append)
  qed
qed

subsection \<open>What a call leaves unchanged\<close>

lemma extends_refl: "extends h h"
  by (simp add: extends_def)

lemma extends_length:
  assumes "extends h h'"
  shows "length h \<le> length h'"
proof -
  from assms have "length (take (length h) h') = length h" by (simp add: extends_def)
  then show ?thesis by simp
qed

lemma extends_nth:
  assumes "extends h h'" and "a < length h"
  shows "h' ! a = h ! a"
proof -
  have "take (length h) h' ! a = h' ! a" using assms(2) by simp
  with assms(1) show ?thesis by (simp add: extends_def)
qed

lemma extendsI:
  assumes "length h \<le> length h'" and "\<And>a. a < length h \<Longrightarrow> h' ! a = h ! a"
  shows "extends h h'"
  unfolding extends_def using assms by (intro nth_equalityI) simp_all

lemma extends_trans: "extends h h' \<Longrightarrow> extends h' h'' \<Longrightarrow> extends h h''"
  using extends_length [of h h'] extends_length [of h' h'']
  by (intro extendsI) (auto simp: extends_nth)

lemma extends_append: "extends h (h @ bs)"
  by (simp add: extends_def)

lemma extends_same_but: "extends h h' \<Longrightarrow> same_but t h h'"
  by (simp add: same_but_def extends_length extends_nth)

lemma same_but_refl: "same_but t h h"
  by (simp add: same_but_def)

lemma same_but_trans: "same_but t h h' \<Longrightarrow> same_but t h' h'' \<Longrightarrow> same_but t h h''"
  by (auto simp: same_but_def)

lemma same_but_update: "same_but t h (h[t := b])"
  by (simp add: same_but_def)

lemma same_but_fresh: "length h \<le> t \<Longrightarrow> same_but t h h' \<Longrightarrow> extends h h'"
  by (intro extendsI) (auto simp: same_but_def)

lemma extends_then_same_but:
  "extends h h' \<Longrightarrow> same_but t h' h'' \<Longrightarrow> length h \<le> t \<Longrightarrow> extends h h''"
  using extends_length [of h h']
  by (intro extendsI) (auto simp: same_but_def extends_nth)

lemma vertical_interpolate_h_extends: "extends h (snd (vertical_interpolate_h a b c h))"
  by (simp add: extends_def vertical_interpolate_h_frame)

lemma vertical_interpolate_h_fresh:
  "vertical_interpolate_h a b c h = (Inr r, h') \<Longrightarrow> base r = length h + 2 \<and> length h' = length h + 3"
  by (auto simp: vertical_interpolate_h_def prog_defs Let_def flip_def split: sum.splits prod.splits)

lemma put_row_same_but: "same_but t h (snd (put_row t loc row h))"
  by (simp add: put_row_def same_but_update same_but_refl split: buffer.splits)

lemma same_but_and_then:
  assumes m: "\<And>h. same_but t h (snd (m h))" and f: "\<And>x h. same_but t h (snd (f x h))"
  shows "same_but t h (snd (and_then m f h))"
proof (cases "m h")
  case (Pair r h')
  with m [of h] have 1: "same_but t h h'" by simp
  show ?thesis
  proof (cases r)
    case (Inl e)
    with Pair 1 show ?thesis by (simp add: and_then_def)
  next
    case (Inr x)
    with Pair have "and_then m f h = f x h'" by (simp add: and_then_def)
    with f [of h' x] 1 show ?thesis by (auto intro: same_but_trans)
  qed
qed

lemma same_but_if:
  "same_but t h (snd (p h)) \<Longrightarrow> same_but t h (snd (q h)) \<Longrightarrow>
   same_but t h (snd ((if c then p else q) h))"
  by simp

lemma same_but_steps:
  "same_but t h (snd (return x h))" "same_but t h (snd (lift r h))" "same_but t h (snd (read a h))"
  "same_but t h (snd (read_matrix n h))" "same_but t h (snd (frame_of data s h))"
  "same_but t h (snd (column_h df key h))" "same_but t h (snd (first_of_h df key h))"
  by (simp_all add: return_def lift_def read_def read_matrix_def frame_of_def column_h_def
      first_of_h_def and_then_def same_but_refl split: option.splits)

lemma vertical_interpolate_h_same_but: "same_but t h (snd (vertical_interpolate_h a b c h))"
  by (rule extends_same_but) (rule vertical_interpolate_h_extends)

lemma station_row_h_same_but:
  "same_but tmp h (snd (station_row_h data vl tmp key sl station loc h))"
  unfolding station_row_h_def
  by (intro same_but_and_then same_but_if same_but_steps put_row_same_but
      vertical_interpolate_h_same_but)

lemma station_rows_h_same_but:
  "same_but tmp h (snd (station_rows_h data vl tmp key sl pairs h))"
proof (induction pairs arbitrary: sl h)
  case Nil
  show ?case by (simp add: same_but_steps)
next
  case (Cons p pairs)
  obtain station loc where p: "p = (station, loc)" by (cases p)
  show ?case
    unfolding p station_rows_h.simps
    by (intro same_but_and_then station_row_h_same_but Cons.IH)
qed

lemma extends_and_then:
  assumes m: "\<And>h. extends h (snd (m h))" and f: "\<And>x h. extends h (snd (f x h))"
  shows "extends h (snd (and_then m f h))"
proof (cases "m h")
  case (Pair r h')
  with m [of h] have 1: "extends h h'" by simp
  show ?thesis
  proof (cases r)
    case (Inl e)
    with Pair 1 show ?thesis by (simp add: and_then_def)
  next
    case (Inr x)
    with Pair have "and_then m f h = f x h'" by (simp add: and_then_def)
    with f [of h' x] 1 show ?thesis by (auto intro: extends_trans)
  qed
qed

lemma extends_steps:
  "extends h (snd (return x h))" "extends h (snd (lift r h))" "extends h (snd (read a h))"
  "extends h (snd (read_matrix n h))" "extends h (snd (frame_of data s h))"
  "extends h (snd (new_array xs h))" "extends h (snd (new_matrix rows h))"
  "extends h (snd (item a i h))"
  by (simp_all add: return_def lift_def read_def read_matrix_def frame_of_def new_array_def
      new_matrix_def item_def and_then_def extends_def)

text \<open>A fresh matrix followed by writes to it alone leaves the store it started from.\<close>

lemma fresh_matrix_extends:
  assumes "\<And>t h. same_but t h (snd (f t h))"
  shows "extends h (snd (and_then (new_matrix rows) f h))"
proof -
  have sb: "same_but (length h) (h @ [Mat rows]) (snd (f (length h) (h @ [Mat rows])))"
    by (rule assms)
  have "extends h (snd (f (length h) (h @ [Mat rows])))"
    using extends_then_same_but [OF extends_append sb] by simp
  then show ?thesis by (simp add: run_new_matrix)
qed

lemma same_but_of_extends_and_then:
  assumes m: "\<And>h. same_but t h (snd (m h))" and f: "\<And>x h. extends h (snd (f x h))"
  shows "same_but t h (snd (and_then m f h))"
  by (intro same_but_and_then m extends_same_but f)

lemma interpolate_keys_h_extends:
  "extends h (snd (interpolate_keys_h data vl stns plevs sl keys h))"
proof (induction keys arbitrary: sl h)
  case Nil
  show ?case by (simp add: extends_steps)
next
  case (Cons key keys)
  show ?case
    unfolding interpolate_keys_h.simps
    by (intro fresh_matrix_extends same_but_of_extends_and_then station_rows_h_same_but
        extends_and_then Cons.IH)
       (simp add: extends_steps split: prod.splits)
qed

lemma put_all_same_but: "same_but t h (snd (put_all t n m r h))"
  by (simp add: put_all_def same_but_update same_but_refl split: sum.splits)

lemma grid_keys_h_extends:
  "extends h (snd (grid_keys_h griddata ddist pdist xx pp nx plevs tmp_grid h))"
proof (induction tmp_grid arbitrary: h)
  case Nil
  show ?case by (simp add: extends_steps)
next
  case (Cons p rest)
  obtain key tmp where p: "p = (key, tmp)" by (cases p)
  show ?case
    unfolding p grid_keys_h.simps
    by (intro fresh_matrix_extends same_but_and_then same_but_steps put_all_same_but
        same_but_of_extends_and_then extends_and_then Cons.IH extends_steps)
qed

lemma assemble_h_extends:
  "extends h (snd (assemble_h geod_inv height_to_pressure_std griddata vl nstns sl tmp_grid h))"
  unfolding assemble_h_def Let_def
  by (intro extends_and_then extends_steps)
     (simp_all add: extends_steps grid_keys_h_extends extends_and_then split: prod.splits)

lemma radisonde_cross_section_h_extends:
  "extends h (snd (radisonde_cross_section_h geod_inv height_to_pressure_std griddata stns data
      start endp step h))"
  unfolding radisonde_cross_section_h_def Let_def
  by (intro extends_and_then extends_steps interpolate_keys_h_extends)
     (simp_all add: assemble_h_extends split: prod.splits)

subsection \<open>The store programs compute what the functions on values compute\<close>

text \<open>The soundings as values, read from the store.\<close>

lemma frames_in_station:
  "frames_in h data station =
     map_option (map (\<lambda>(key, a). (key, contents h a))) (map_of data station)"
  unfolding frames_in_def by (simp add: map_of_map)

lemma column_in:
  "column (map (\<lambda>(key, a). (key, contents h a)) df) key =
     (case map_of df key of None \<Rightarrow> Inl KeyError | Some a \<Rightarrow> Inr (contents h a))"
  by (simp add: column_def map_of_map split: option.splits)

lemma first_of_in:
  "first_of (map (\<lambda>(key, a). (key, contents h a)) df) key =
     (case map_of df key of
        None \<Rightarrow> Inl AttributeError
      | Some a \<Rightarrow> (case contents h a of [] \<Rightarrow> Inl KeyError | v # _ \<Rightarrow> Inr v))"
  by (simp add: first_of_def map_of_map split: option.splits)

lemma arrays_belowD:
  assumes "arrays_below n data" and "map_of data station = Some df" and "map_of df key = Some a"
  shows "base a < n"
proof -
  from assms(2) have "(station, df) \<in> set data" by (rule map_of_SomeD)
  moreover from assms(3) have "(key, a) \<in> set df" by (rule map_of_SomeD)
  ultimately show ?thesis using assms(1) by (auto simp: arrays_below_def list_all_iff)
qed

lemma contents_same_but:
  assumes "same_but t h h'" and "base a < length h" and "base a \<noteq> t"
  shows "contents h' a = contents h a"
  using assms by (simp add: contents_def vec_def same_but_def)

lemma contents_extends:
  assumes "extends h h'" and "base a < length h"
  shows "contents h' a = contents h a"
  using assms by (simp add: contents_def vec_def extends_nth)

lemma frames_in_same_but:
  assumes "arrays_below n data" and "same_but t h h'" and "n \<le> t" and "n \<le> length h"
  shows "frames_in h' data = frames_in h data"
proof
  fix station
  show "frames_in h' data station = frames_in h data station"
  proof (cases "map_of data station")
    case None
    then show ?thesis by (simp add: frames_in_station)
  next
    case (Some df)
    have "map (\<lambda>(key, a). (key, contents h' a)) df = map (\<lambda>(key, a). (key, contents h a)) df"
    proof (rule map_cong [OF refl])
      fix x assume x: "x \<in> set df"
      obtain key a where ka: "x = (key, a)" by (cases x)
      from Some have "(station, df) \<in> set data" by (rule map_of_SomeD)
      with x ka assms(1) have "base a < n" by (auto simp: arrays_below_def list_all_iff)
      with assms have "contents h' a = contents h a"
        by (intro contents_same_but [of t]) simp_all
      then show "(case x of (key, a) \<Rightarrow> (key, contents h' a)) = (case x of (key, a) \<Rightarrow> (key, contents h a))"
        by (simp add: ka)
    qed
    with Some show ?thesis by (simp add: frames_in_station)
  qed
qed

lemma frames_in_extends:
  assumes "arrays_below (length h) data" and "extends h h'"
  shows "frames_in h' data = frames_in h data"
  using frames_in_same_but [OF assms(1) extends_same_but [OF assms(2)], of "length h"] by simp

lemma run_put_row:
  assumes "h ! a = Mat rows" and "loc < length rows" and "length row = length (rows ! loc)"
  shows "and_then (put_row a loc row) f h = f () (h[a := Mat (rows[loc := row])])"
  using assms by (simp add: and_then_def put_row_def stretch_def)

lemma run_first_of_h:
  "and_then (first_of_h df key) f h =
     (case first_of (map (\<lambda>(key, a). (key, contents h a)) df) key of
        Inl e \<Rightarrow> (Inl e, h) | Inr v \<Rightarrow> f v h)"
  by (simp add: first_of_h_def first_of_in run split: option.splits list.splits)

lemma run_column_h:
  "and_then (column_h df key) f h =
     (case map_of df key of None \<Rightarrow> (Inl KeyError, h) | Some a \<Rightarrow> f a h)"
  by (simp add: column_h_def run split: option.splits)

lemma run_frame_of:
  "and_then (frame_of data station) f h =
     (case map_of data station of None \<Rightarrow> (Inl KeyError, h) | Some df \<Rightarrow> f df h)"
  by (simp add: frame_of_def run split: option.splits)

lemma run_known:
  "m h = (Inl e, h') \<Longrightarrow> and_then m f h = (Inl e, h')"
  "m h = (Inr x, h') \<Longrightarrow> and_then m f h = f x h'"
  by (simp_all add: and_then_def)

lemma station_row_h_refines:
  assumes ab: "arrays_below n data" and nt: "n \<le> tmp" and th: "tmp < length h"
    and cell: "h ! tmp = Mat rows" and loc: "loc < length rows"
    and len: "length (rows ! loc) = length (contents h vl)"
    and vl: "base vl < length h" "base vl \<noteq> tmp"
  shows "fst (station_row_h data vl tmp key sl station loc h) =
           map_sum id fst (station_row (frames_in h data) (contents h vl) key sl station)"
    and "snd (station_row_h data vl tmp key sl station loc h) ! tmp =
           Mat (case station_row (frames_in h data) (contents h vl) key sl station of
                  Inl e \<Rightarrow> rows | Inr (sl', row) \<Rightarrow> rows[loc := row])"
proof -
  let ?run = "station_row_h data vl tmp key sl station loc h"
  let ?pure = "station_row (frames_in h data) (contents h vl) key sl station"
  have "fst ?run = map_sum id fst ?pure \<and>
        snd ?run ! tmp = Mat (case ?pure of Inl e \<Rightarrow> rows | Inr (sl', row) \<Rightarrow> rows[loc := row])"
  proof (cases "map_of data station")
    case None
    then show ?thesis
      by (simp add: station_row_h_def station_row_def run_frame_of frames_in_station cell)
  next
    case (Some df)
    show ?thesis
    proof (cases "key = ''pressure''")
      case True
      show ?thesis
        using Some True cell loc len th
        by (simp add: station_row_h_def station_row_def run_frame_of frames_in_station
            run_first_of_h run run_put_row return_def split: sum.splits)
    next
      case False
      show ?thesis
      proof (cases "map_of df ''pressure''")
        case None
        with Some False show ?thesis
          by (simp add: station_row_h_def station_row_def run_frame_of frames_in_station
              run_column_h column_in cell)
      next
        case p: (Some p)
        show ?thesis
        proof (cases "map_of df key")
          case None
          with Some False p show ?thesis
            by (simp add: station_row_h_def station_row_def run_frame_of frames_in_station
                run_column_h column_in cell)
        next
          case v: (Some v)
          have bp: "base p < length h" and bv: "base v < length h"
            using arrays_belowD [OF ab Some p] arrays_belowD [OF ab Some v] nt th by simp_all
          note vi = vertical_interpolate_h_refines [OF bp bv vl(1)]
          show ?thesis
          proof (cases "vertical_interpolate (contents h p) (contents h v) (contents h vl)")
            case (Inl e)
            with vi have "vertical_interpolate_h p v vl h =
                (Inl e, h @ [Vec (np_log (contents h p)), Vec (np_log (contents h vl))])"
              by simp
            note k = run_known(1) [of "vertical_interpolate_h p v vl" h, OF this]
            from Some False p v Inl th show ?thesis
              by (simp add: station_row_h_def station_row_def run_frame_of frames_in_station
                  run_column_h column_in cell k nth_append)
          next
            case (Inr out)
            let ?h2 = "h @ [Vec (np_log (contents h p)), Vec (np_log (contents h vl)), Vec (rev out)]"
            have lo: "length out = length (rows ! loc)"
              using length_vertical_interpolate [OF Inr] len by simp
            have c2: "?h2 ! tmp = Mat rows" using th cell by (simp add: nth_append)
            have r2: "contents ?h2 \<lparr>base = length h + 2, reversed = True\<rparr> = out"
              by (simp add: contents_beyond)
            from vi Inr have "vertical_interpolate_h p v vl h =
                (Inr \<lparr>base = length h + 2, reversed = True\<rparr>, ?h2)"
              by simp
            note k = run_known(2) [of "vertical_interpolate_h p v vl" h, OF this]
            have "?run = and_then (read \<lparr>base = length h + 2, reversed = True\<rparr>)
                           (\<lambda>row. and_then (put_row tmp loc row) (\<lambda>_. return sl)) ?h2"
              using Some False p v
              by (simp add: station_row_h_def run_frame_of run_column_h k)
            also have "\<dots> = (Inr sl, ?h2[tmp := Mat (rows[loc := out])])"
              using c2 loc lo by (simp add: run_read contents_beyond run_put_row return_def)
            finally have "?run = (Inr sl, ?h2[tmp := Mat (rows[loc := out])])" .
            moreover have "?pure = Inr (sl, out)"
              using Some False p v Inr
              by (simp add: station_row_def frames_in_station column_in)
            ultimately show ?thesis using th by simp
          qed
        qed
      qed
    qed
  qed
  then show "fst ?run = map_sum id fst ?pure"
    and "snd ?run ! tmp = Mat (case ?pure of Inl e \<Rightarrow> rows | Inr (sl', row) \<Rightarrow> rows[loc := row])"
    by simp_all
qed

lemma station_row_length:
  assumes "station_row data vl key sl station = Inr (sl', row)"
  shows "length row = length vl"
proof (cases "key = ''pressure''")
  case True
  with assms station_row_pressure [of data vl sl station sl' row] show ?thesis by simp
next
  case False
  from station_row_other [OF False assms] have "interpolated_column data key vl station = Inr row"
    by simp
  then show ?thesis
    by (auto simp: interpolated_column_def split: option.splits sum.splits
        dest: length_vertical_interpolate)
qed

lemma take_Suc_update: "k < length rows \<Longrightarrow> take (Suc k) (rows[k := row]) = take k rows @ [row]"
  by (simp add: take_Suc_conv_app_nth)

lemma station_rows_h_refines:
  assumes ab: "arrays_below n data" and nt: "n \<le> tmp" and th: "tmp < length h"
    and cell: "h ! tmp = Mat rows" and k: "k + length ss \<le> length rows"
    and len: "\<forall>i<length rows. length (rows ! i) = length (contents h vl)"
    and vl: "base vl < length h" "base vl \<noteq> tmp"
  shows "fst (station_rows_h data vl tmp key sl (zip ss [k..<k + length ss]) h) =
           map_sum id fst (station_rows (frames_in h data) (contents h vl) key sl ss) \<and>
         (\<exists>rows'. snd (station_rows_h data vl tmp key sl (zip ss [k..<k + length ss]) h) ! tmp = Mat rows' \<and>
            length rows' = length rows \<and>
            (\<forall>i<length rows'. length (rows' ! i) = length (contents h vl)) \<and>
            (\<forall>sl' new. station_rows (frames_in h data) (contents h vl) key sl ss = Inr (sl', new) \<longrightarrow>
               rows' = take k rows @ new @ drop (k + length ss) rows))"
  using th cell k len vl
proof (induction ss arbitrary: sl h rows k)
  case Nil
  then show ?case by (simp add: return_def)
next
  case (Cons s ss)
  let ?D = "frames_in h data" and ?vl = "contents h vl"
  let ?step = "station_row_h data vl tmp key sl s k h"
  let ?pure1 = "station_row ?D ?vl key sl s"
  have kl: "k < length rows" using Cons.prems(3) by simp
  have lk: "length (rows ! k) = length ?vl" using Cons.prems(4) kl by simp
  have "[k..<k + length (s # ss)] = k # [Suc k..<Suc k + length ss]"
    by (subst upt_rec) simp
  then have z: "zip (s # ss) [k..<k + length (s # ss)] = (s, k) # zip ss [Suc k..<Suc k + length ss]"
    by simp
  obtain r1 h1 where step: "?step = (r1, h1)" by (cases ?step)
  have r1: "r1 = map_sum id fst ?pure1"
    and c1: "h1 ! tmp = Mat (case ?pure1 of Inl e \<Rightarrow> rows | Inr (sl', row) \<Rightarrow> rows[k := row])"
    using station_row_h_refines [OF ab nt Cons.prems(1,2) kl lk Cons.prems(5,6), of key sl s] step
    by simp_all
  have sb: "same_but tmp h h1"
    using station_row_h_same_but [of tmp h data vl key sl s k] step by simp
  show ?case
  proof (cases ?pure1)
    case (Inl e)
    with r1 step have "station_rows_h data vl tmp key sl (zip (s # ss) [k..<k + length (s # ss)]) h = (Inl e, h1)"
      unfolding z by (simp add: run_known(1) [of "station_row_h data vl tmp key sl s k" h])
    moreover have "station_rows ?D ?vl key sl (s # ss) = Inl e" using Inl by simp
    ultimately show ?thesis using c1 Inl Cons.prems(4) by simp
  next
    case (Inr p)
    obtain sl1 row where p: "p = (sl1, row)" by (cases p)
    note pure1 = Inr [unfolded p]
    let ?rows1 = "rows[k := row]"
    have lr: "length row = length ?vl" using station_row_length [OF pure1] .
    have c1': "h1 ! tmp = Mat ?rows1" using c1 pure1 by simp
    have th1: "tmp < length h1" using sb Cons.prems(1) by (simp add: same_but_def)
    have vl1: "contents h1 vl = ?vl"
      using contents_same_but [OF sb Cons.prems(5,6)] .
    have D1: "frames_in h1 data = ?D"
      using frames_in_same_but [OF ab sb nt] nt Cons.prems(1) by simp
    have len1: "\<forall>i<length ?rows1. length (?rows1 ! i) = length (contents h1 vl)"
      using Cons.prems(4) lr kl by (auto simp: vl1 nth_list_update)
    have k1: "Suc k + length ss \<le> length ?rows1" using Cons.prems(3) by simp
    have b1: "base vl < length h1" using sb Cons.prems(5) by (simp add: same_but_def)
    note IH = Cons.IH [OF th1 c1' k1 len1 b1 Cons.prems(6), of sl1, unfolded D1 vl1]
    let ?rest = "station_rows_h data vl tmp key sl1 (zip ss [Suc k..<Suc k + length ss]) h1"
    have run: "station_rows_h data vl tmp key sl (zip (s # ss) [k..<k + length (s # ss)]) h = ?rest"
      unfolding z using r1 step pure1
      by (simp add: run_known(2) [of "station_row_h data vl tmp key sl s k" h])
    have pure: "station_rows ?D ?vl key sl (s # ss) =
        (case station_rows ?D ?vl key sl1 ss of Inl e \<Rightarrow> Inl e
         | Inr (sl'', rows) \<Rightarrow> Inr (sl'', row # rows))"
      using pure1 by simp
    from IH obtain rows' where
      f: "fst ?rest = map_sum id fst (station_rows ?D ?vl key sl1 ss)"
      and c: "snd ?rest ! tmp = Mat rows'" and l: "length rows' = length ?rows1"
      and ll: "\<forall>i<length rows'. length (rows' ! i) = length ?vl"
      and new: "\<forall>sl' new. station_rows ?D ?vl key sl1 ss = Inr (sl', new) \<longrightarrow>
               rows' = take (Suc k) ?rows1 @ new @ drop (Suc k + length ss) ?rows1"
      by blast
    have "fst ?rest = map_sum id fst (station_rows ?D ?vl key sl (s # ss))"
      unfolding pure f by (simp split: sum.splits)
    moreover have "\<forall>sl' new. station_rows ?D ?vl key sl (s # ss) = Inr (sl', new) \<longrightarrow>
               rows' = take k rows @ new @ drop (k + length (s # ss)) rows"
      unfolding pure using new kl by (auto simp: take_Suc_update split: sum.splits)
    moreover have "length rows' = length rows" using l by simp
    ultimately show ?thesis
      unfolding run using c ll by blast
  qed
qed

lemma holds_rows_Nil: "holds_rows lo h [] []"
  by (simp add: holds_rows_def)

lemma holds_rows_Cons:
  "holds_rows lo h ((key, a) # refs) ((key', rows) # grids) \<longleftrightarrow>
     key = key' \<and> lo \<le> a \<and> a < length h \<and> h ! a = Mat rows \<and> holds_rows lo h refs grids"
  by (simp add: holds_rows_def)

lemma holds_rows_extends:
  assumes "holds_rows lo h refs grids" and "extends h h'" and "lo' \<le> lo"
  shows "holds_rows lo' h' refs grids"
  using assms(1) extends_length [OF assms(2)] extends_nth [OF assms(2)] assms(3)
  unfolding holds_rows_def by (auto elim!: list_all2_mono)

lemma holds_rows_mat:
  "holds_rows lo h refs grids \<Longrightarrow> map (\<lambda>(key, g). (key, mat h g)) refs = grids"
  unfolding holds_rows_def
  by (induction refs grids rule: list_all2_induct) (auto simp: mat_def)

lemma frames_in_extends_below:
  assumes "arrays_below n data" and "n \<le> length h" and "extends h h'"
  shows "frames_in h' data = frames_in h data"
  using frames_in_same_but [OF assms(1) extends_same_but [OF assms(3)], of "length h"] assms(2)
  by simp

lemma station_rows_length:
  "station_rows data vl key sl ss = Inr (sl', rows) \<Longrightarrow> length rows = length ss"
  by (induction ss arbitrary: sl sl' rows) (auto split: sum.splits)

lemma interpolate_keys_h_refines:
  assumes ab: "arrays_below n data"
  shows "n \<le> length h \<Longrightarrow> base vl < length h \<Longrightarrow> plevs = length (contents h vl) \<Longrightarrow>
    (case interpolate_keys (frames_in h data) (contents h vl) stns sl keys of
       Inl e \<Rightarrow> fst (interpolate_keys_h data vl stns plevs sl keys h) = Inl e
     | Inr (sl', tmp_grid) \<Rightarrow>
         (\<exists>refs. fst (interpolate_keys_h data vl stns plevs sl keys h) = Inr (sl', refs) \<and>
            holds_rows (length h) (snd (interpolate_keys_h data vl stns plevs sl keys h)) refs tmp_grid))"
proof (induction keys arbitrary: sl h)
  case Nil
  then show ?case by (simp add: return_def holds_rows_Nil)
next
  case (Cons key keys)
  let ?D = "frames_in h data" and ?vl = "contents h vl"
  let ?tmp = "length h"
  let ?hA = "h @ [Mat (np_empty (length stns) plevs)]"
  let ?loop = "station_rows_h data vl ?tmp key sl (zip stns [0..<length stns]) ?hA"
  let ?pure1 = "station_rows ?D ?vl key sl stns"
  have eA: "extends h ?hA" by (rule extends_append)
  have vlA: "contents ?hA vl = ?vl" using Cons.prems(2) by (simp add: contents_append)
  have DA: "frames_in ?hA data = ?D"
    using frames_in_extends_below [OF ab Cons.prems(1) eA] .
  have cellA: "?hA ! ?tmp = Mat (np_empty (length stns) plevs)" by simp
  have lenA: "\<forall>i<length (np_empty (length stns) plevs).
      length (np_empty (length stns) plevs ! i) = length (contents ?hA vl)"
    using Cons.prems(3) by (simp add: np_empty_def contents_append [OF Cons.prems(2)])
  have "0 + length stns \<le> length (np_empty (length stns) plevs)" by (simp add: np_empty_def)
  from station_rows_h_refines [OF ab Cons.prems(1) _ cellA this lenA, of key sl] Cons.prems(2)
  obtain rows' where
    f1: "fst ?loop = map_sum id fst ?pure1"
    and c1: "snd ?loop ! ?tmp = Mat rows'"
    and n1: "\<forall>sl' new. ?pure1 = Inr (sl', new) \<longrightarrow>
               rows' = new @ drop (length stns) (np_empty (length stns) plevs)"
    unfolding DA vlA by auto
  obtain r1 hB where loop: "?loop = (r1, hB)" by (cases ?loop)
  have sb: "same_but ?tmp ?hA hB"
    using station_rows_h_same_but [of ?tmp ?hA data vl key sl "zip stns [0..<length stns]"] loop
    by simp
  have eB: "extends h hB"
    using extends_then_same_but [OF eA sb] by simp
  have run: "interpolate_keys_h data vl stns plevs sl (key # keys) h =
      and_then (station_rows_h data vl ?tmp key sl (zip stns [0..<length stns])) (\<lambda>sl'.
        and_then (interpolate_keys_h data vl stns plevs sl' keys) (\<lambda>(sl'', tmp_grid).
        return (sl'', (key, ?tmp) # tmp_grid))) ?hA"
    by (simp add: run_new_matrix)
  show ?case
  proof (cases ?pure1)
    case (Inl e)
    with f1 loop have "fst (interpolate_keys_h data vl stns plevs sl (key # keys) h) = Inl e"
      unfolding run by (simp add: and_then_def)
    with Inl show ?thesis by simp
  next
    case (Inr p)
    obtain sl1 new where p: "p = (sl1, new)" by (cases p)
    note pure1 = Inr [unfolded p]
    have r1: "r1 = Inr sl1" using f1 loop pure1 by simp
    have "length new = length stns" using station_rows_length [OF pure1] .
    then have cB: "hB ! ?tmp = Mat new"
      using c1 n1 pure1 loop by (simp add: np_empty_def)
    have lB: "length h < length hB" using sb by (simp add: same_but_def)
    have vlB: "contents hB vl = ?vl"
      using contents_extends [OF eB Cons.prems(2)] .
    have DB: "frames_in hB data = ?D"
      using frames_in_extends_below [OF ab Cons.prems(1) eB] .
    have nB: "n \<le> length hB" and bB: "base vl < length hB" and pB: "plevs = length (contents hB vl)"
      using Cons.prems lB by (simp_all add: vlB)
    note IH = Cons.IH [OF nB bB pB, of sl1, unfolded DB vlB]
    let ?rest = "interpolate_keys_h data vl stns plevs sl1 keys hB"
    obtain r2 hC where rest: "?rest = (r2, hC)" by (cases ?rest)
    have eC: "extends hB hC"
      using interpolate_keys_h_extends [of hB data vl stns plevs sl1 keys] rest by simp
    have run2: "interpolate_keys_h data vl stns plevs sl (key # keys) h =
        (case r2 of Inl e \<Rightarrow> (Inl e, hC)
         | Inr (sl'', tmp_grid) \<Rightarrow> (Inr (sl'', (key, ?tmp) # tmp_grid), hC))"
      unfolding run using loop r1 rest by (simp add: and_then_def return_def split: sum.splits)
    show ?thesis
    proof (cases "interpolate_keys ?D ?vl stns sl1 keys")
      case (Inl e)
      with IH rest have "r2 = Inl e" by simp
      with Inl pure1 show ?thesis unfolding run2 by simp
    next
      case (Inr q)
      obtain sl2 tg where q: "q = (sl2, tg)" by (cases q)
      from IH Inr q rest obtain refs where
        r2: "r2 = Inr (sl2, refs)" and hr: "holds_rows (length hB) hC refs tg"
        by auto
      have "holds_rows (length h) hC refs tg"
        using holds_rows_extends [OF hr extends_refl] lB by simp
      moreover have "hC ! ?tmp = Mat new" and "?tmp < length hC"
        using extends_nth [OF eC lB] cB extends_length [OF eC] lB by simp_all
      ultimately have "holds_rows (length h) hC ((key, ?tmp) # refs) ((key, new) # tg)"
        by (simp add: holds_rows_Cons)
      with Inr q pure1 r2 show ?thesis unfolding run2 by simp
    qed
  qed
qed

lemma run_read_matrix: "and_then (read_matrix a) f h = f (mat h a) h"
  by (simp add: and_then_def read_matrix_def)

lemma run_put_all:
  "and_then (put_all a n m r) f h =
     (case assign_all n m r of Inl e \<Rightarrow> (Inl e, h) | Inr rows \<Rightarrow> f () (h[a := Mat rows]))"
  by (simp add: and_then_def put_all_def split: sum.splits)

lemma mat_append: "a < length h \<Longrightarrow> mat (h @ bs) a = mat h a"
  by (simp add: mat_def nth_append)

lemma grid_keys_h_refines:
  "xx < length h \<Longrightarrow> h ! xx = Mat xs \<Longrightarrow> pp < length h \<Longrightarrow> h ! pp = Mat ps \<Longrightarrow>
   holds_rows lo h refs tmp_grid \<Longrightarrow>
   (case grid_keys griddata ddist pdist xs ps nx plevs tmp_grid of
      Inl e \<Rightarrow> fst (grid_keys_h griddata ddist pdist xx pp nx plevs refs h) = Inl e
    | Inr grid \<Rightarrow>
        (\<exists>gr. fst (grid_keys_h griddata ddist pdist xx pp nx plevs refs h) = Inr gr \<and>
           holds_rows (length h) (snd (grid_keys_h griddata ddist pdist xx pp nx plevs refs h)) gr grid))"
proof (induction refs arbitrary: tmp_grid h)
  case Nil
  then have "tmp_grid = []" by (simp add: holds_rows_def)
  then show ?case by (simp add: return_def holds_rows_Nil)
next
  case (Cons ref refs)
  obtain key tmp where ref: "ref = (key, tmp)" by (cases ref)
  from Cons.prems(5) obtain kr tg where tmp_grid: "tmp_grid = kr # tg"
    by (auto simp: holds_rows_def list_all2_Cons1)
  obtain key' rows where kr: "kr = (key', rows)" by (cases kr)
  from Cons.prems(5) have k: "key' = key" and t: "tmp < length h" "h ! tmp = Mat rows"
    and hr: "holds_rows lo h refs tg"
    by (simp_all add: ref tmp_grid kr holds_rows_Cons)
  let ?g = "length h"
  let ?hA = "h @ [Mat (np_empty nx plevs)]"
  let ?call = "griddata (flatten ddist, flatten pdist) (flatten rows) (xs, ps)"
  have m: "mat ?hA tmp = rows" "mat ?hA xx = xs" "mat ?hA pp = ps"
    using t Cons.prems(1-4) by (simp_all add: mat_append) (simp_all add: mat_def)
  have run: "grid_keys_h griddata ddist pdist xx pp nx plevs (ref # refs) h =
      and_then (lift ?call) (\<lambda>r.
      and_then (put_all ?g nx plevs r) (\<lambda>_.
      and_then (grid_keys_h griddata ddist pdist xx pp nx plevs refs) (\<lambda>grid.
      return ((key, ?g) # grid)))) ?hA"
    by (simp add: ref run_new_matrix run_read_matrix m)
  have pure: "grid_keys griddata ddist pdist xs ps nx plevs tmp_grid =
      (case ?call of Inl e \<Rightarrow> Inl e
       | Inr r \<Rightarrow>
          (case assign_all nx plevs r of Inl e \<Rightarrow> Inl e
           | Inr g \<Rightarrow>
              (case grid_keys griddata ddist pdist xs ps nx plevs tg of Inl e \<Rightarrow> Inl e
               | Inr grid \<Rightarrow> Inr ((key, g) # grid))))"
    by (simp add: tmp_grid kr k)
  show ?case
  proof (cases ?call)
    case (Inl e)
    then show ?thesis unfolding run pure by (simp add: run_lift)
  next
    case r: (Inr r)
    show ?thesis
    proof (cases "assign_all nx plevs r")
      case (Inl e)
      with r show ?thesis unfolding run pure by (simp add: run_lift run_put_all)
    next
      case g: (Inr g)
      let ?hB = "h @ [Mat g]"
      let ?rest = "grid_keys_h griddata ddist pdist xx pp nx plevs refs ?hB"
      have run2: "grid_keys_h griddata ddist pdist xx pp nx plevs (ref # refs) h =
          and_then (grid_keys_h griddata ddist pdist xx pp nx plevs refs)
            (\<lambda>grid. return ((key, ?g) # grid)) ?hB"
        unfolding run using r g by (simp add: run_lift run_put_all)
      have eB: "extends h ?hB" by (rule extends_append)
      have pB: "xx < length ?hB" "?hB ! xx = Mat xs" "pp < length ?hB" "?hB ! pp = Mat ps"
        using Cons.prems(1-4) by (simp_all add: nth_append)
      have hB: "holds_rows lo ?hB refs tg"
        using holds_rows_extends [OF hr eB] by simp
      note IH = Cons.IH [OF pB hB]
      obtain r2 hC where rest: "?rest = (r2, hC)" by (cases ?rest)
      have eC: "extends ?hB hC"
        using grid_keys_h_extends [of ?hB griddata ddist pdist xx pp nx plevs refs] rest by simp
      show ?thesis
      proof (cases "grid_keys griddata ddist pdist xs ps nx plevs tg")
        case (Inl e)
        with IH rest have "r2 = Inl e" by simp
        with Inl r g rest show ?thesis unfolding run2 pure by (simp add: and_then_def)
      next
        case (Inr grid)
        with IH rest obtain gr where r2: "r2 = Inr gr" and hg: "holds_rows (length ?hB) hC gr grid"
          by auto
        have "holds_rows ?g hC gr grid"
          using holds_rows_extends [OF hg extends_refl] by simp
        moreover have "hC ! ?g = Mat g" "?g < length hC"
          using extends_nth [OF eC, of ?g] extends_length [OF eC] by simp_all
        ultimately have "holds_rows ?g hC ((key, ?g) # gr) ((key, g) # grid)"
          by (simp add: holds_rows_Cons)
        with Inr r g rest r2 show ?thesis
          unfolding run2 pure by (simp add: and_then_def return_def)
      qed
    qed
  qed
qed

lemma holds_rows_bounds:
  "holds_rows lo h refs grids \<Longrightarrow> list_all (\<lambda>a. lo \<le> a \<and> a < length h) (map snd refs)"
  unfolding holds_rows_def
  by (induction refs grids rule: list_all2_induct) auto

lemma mat_extends: "extends h h' \<Longrightarrow> a < length h \<Longrightarrow> mat h' a = mat h a"
  by (simp add: mat_def extends_nth)

lemma assemble_h_refines:
  assumes vl: "base vl < length h" and hr: "holds_rows lo h refs tmp_grid"
  shows "case assemble geod_inv height_to_pressure_std griddata (contents h vl) nstns sl tmp_grid of
      Inl e \<Rightarrow> fst (assemble_h geod_inv height_to_pressure_std griddata vl nstns sl refs h) = Inl e
    | Inr cs \<Rightarrow>
        (\<exists>c. fst (assemble_h geod_inv height_to_pressure_std griddata vl nstns sl refs h) = Inr c \<and>
           cross_section_in (snd (assemble_h geod_inv height_to_pressure_std griddata vl nstns sl refs h)) c = cs \<and>
           fresh_in (length h) (snd (assemble_h geod_inv height_to_pressure_std griddata vl nstns sl refs h)) c)"
proof -
  let ?run = "assemble_h geod_inv height_to_pressure_std griddata vl nstns sl refs h"
  let ?pure = "assemble geod_inv height_to_pressure_std griddata (contents h vl) nstns sl tmp_grid"
  show ?thesis
  proof (cases "getitem (lons sl) 0")
    case (Inl e)
    then show ?thesis by (simp add: assemble_def assemble_h_def run_lift)
  next
    case lon0: (Inr lon0)
    show ?thesis
    proof (cases "getitem (lats sl) 0")
      case (Inl e)
      with lon0 show ?thesis by (simp add: assemble_def assemble_h_def run_lift)
    next
      case lat0: (Inr lat0)
      define dist where "dist = inv_all geod_inv (replicate nstns lon0) (replicate nstns lat0) (lons sl) (lats sl)"
      define ge where "ge = map height_to_pressure_std (elev sl)"
      let ?da = "\<lparr>base = length h, reversed = False\<rparr>"
      let ?ea = "\<lparr>base = Suc (length h), reversed = False\<rparr>"
      let ?h2 = "h @ [Vec dist, Vec ge]"
      have cd: "contents (h @ Vec dist # bs) ?da = dist" for bs
        by (simp add: contents_beyond)
      have ce: "contents (h @ b # Vec ge # bs) ?ea = ge" for b bs
        by (simp add: contents_beyond)
      have cv: "contents (h @ bs) vl = contents h vl" for bs
        using vl by (simp add: contents_append)
      show ?thesis
      proof (cases "getitem dist 0")
        case (Inl e)
        with lon0 lat0 show ?thesis
          by (simp add: assemble_def assemble_h_def item_def run cd
              dist_def [symmetric] ge_def [symmetric])
      next
        case d0: (Inr d0)
        show ?thesis
        proof (cases "getitem dist (- 1)")
          case (Inl e)
          with lon0 lat0 d0 show ?thesis
            by (simp add: assemble_def assemble_h_def item_def run cd
                dist_def [symmetric] ge_def [symmetric])
        next
          case dn: (Inr dn)
          define x where "x = np_linspace d0 dn 100"
          define ps where "ps = fst (np_meshgrid (contents h vl) x)"
          define xs where "xs = snd (np_meshgrid (contents h vl) x)"
          define pdist where "pdist = fst (np_meshgrid (contents h vl) dist)"
          define ddist where "ddist = snd (np_meshgrid (contents h vl) dist)"
          let ?pp = "Suc (Suc (length h))" and ?xx = "Suc (Suc (Suc (length h)))"
          let ?h4 = "h @ [Vec dist, Vec ge, Mat ps, Mat xs]"
          let ?loop = "grid_keys_h griddata ddist pdist ?xx ?pp (length x) (length (contents h vl)) refs ?h4"
          let ?ploop = "grid_keys griddata ddist pdist xs ps (length x) (length (contents h vl)) tmp_grid"
          have run: "?run = and_then (grid_keys_h griddata ddist pdist ?xx ?pp (length x)
                          (length (contents h vl)) refs)
                       (\<lambda>grid. return \<lparr>grid_data_h = grid, obs_distance_h = ?da, x_grid_h = ?xx,
                          p_grid_h = ?pp, elevation_h = ?ea\<rparr>) ?h4"
            unfolding ps_def xs_def pdist_def ddist_def using lon0 lat0 d0 dn
            by (simp add: assemble_h_def item_def run cd cv
                dist_def [symmetric] ge_def [symmetric] x_def [symmetric] Let_def
                case_prod_unfold)
          have pure: "?pure = (case ?ploop of Inl e \<Rightarrow> Inl e
                | Inr grid \<Rightarrow> Inr \<lparr>grid_data = grid, obs_distance = dist, x_grid = xs, p_grid = ps,
                     elevation = ge\<rparr>)"
            unfolding ps_def xs_def pdist_def ddist_def using lon0 lat0 d0 dn
            by (simp add: assemble_def dist_def [symmetric] ge_def [symmetric] x_def [symmetric]
                Let_def case_prod_unfold)
          have e4: "extends h ?h4" by (rule extends_append)
          have h4: "holds_rows lo ?h4 refs tmp_grid"
            using holds_rows_extends [OF hr e4] by simp
          have p4: "?xx < length ?h4" "?h4 ! ?xx = Mat xs" "?pp < length ?h4" "?h4 ! ?pp = Mat ps"
            by (simp_all add: nth_append)
          note R = grid_keys_h_refines [OF p4 h4, of griddata ddist pdist "length x" "length (contents h vl)"]
          obtain r h5 where loop: "?loop = (r, h5)" by (cases ?loop)
          have e5: "extends ?h4 h5"
            using grid_keys_h_extends [of ?h4 griddata ddist pdist ?xx ?pp "length x"
                "length (contents h vl)" refs] loop by simp
          show ?thesis
          proof (cases ?ploop)
            case (Inl e)
            with R loop have "r = Inl e" by simp
            with Inl loop show ?thesis unfolding run pure by (simp add: and_then_def)
          next
            case (Inr grid)
            with R loop obtain gr where r: "r = Inr gr" and hg: "holds_rows (length ?h4) h5 gr grid"
              by auto
            let ?c = "\<lparr>grid_data_h = gr, obs_distance_h = ?da, x_grid_h = ?xx,
                          p_grid_h = ?pp, elevation_h = ?ea\<rparr>"
            have res: "?run = (Inr ?c, h5)"
              unfolding run using loop r by (simp add: and_then_def return_def)
            have l5: "length h + 4 \<le> length h5" using extends_length [OF e5] by simp
            have c1: "contents h5 ?da = dist"
              using contents_extends [OF e5, of ?da] by (simp add: cd)
            have c2: "contents h5 ?ea = ge"
              using contents_extends [OF e5, of ?ea] by (simp add: ce)
            have c3: "mat h5 ?xx = xs" "mat h5 ?pp = ps"
              using mat_extends [OF e5, of ?xx] mat_extends [OF e5, of ?pp]
              by (simp_all add: mat_def nth_append)
            have "cross_section_in h5 ?c =
                \<lparr>grid_data = grid, obs_distance = dist, x_grid = xs, p_grid = ps, elevation = ge\<rparr>"
              by (simp add: cross_section_in_def holds_rows_mat [OF hg] c1 c2 c3)
            moreover have "fresh_in (length h) h5 ?c"
              using holds_rows_bounds [OF hg] l5
              by (auto simp: fresh_in_def list_all_iff)
            ultimately show ?thesis
              unfolding pure res using Inr by simp
          qed
        qed
      qed
    qed
  qed
qed

lemma fresh_in_mono: "fresh_in lo h c \<Longrightarrow> lo' \<le> lo \<Longrightarrow> fresh_in lo' h c"
  by (auto simp: fresh_in_def list_all_iff)

lemma keys_in: "map (fst \<circ> (\<lambda>(key, a). (key, f a))) df = map fst df"
  by (induction df) auto

lemma radisonde_cross_section_h_refines:
  assumes ab: "arrays_below (length h) data"
  shows "case radisonde_cross_section geod_inv height_to_pressure_std griddata stns
                (frames_in h data) start endp step of
      Inl e \<Rightarrow>
        fst (radisonde_cross_section_h geod_inv height_to_pressure_std griddata stns data
               start endp step h) = Inl e
    | Inr cs \<Rightarrow>
        (\<exists>c. fst (radisonde_cross_section_h geod_inv height_to_pressure_std griddata stns data
                    start endp step h) = Inr c \<and>
           cross_section_in (snd (radisonde_cross_section_h geod_inv height_to_pressure_std
                    griddata stns data start endp step h)) c = cs \<and>
           fresh_in (length h) (snd (radisonde_cross_section_h geod_inv height_to_pressure_std
                    griddata stns data start endp step h)) c)"
proof -
  let ?run = "radisonde_cross_section_h geod_inv height_to_pressure_std griddata stns data
                start endp step h"
  let ?D = "frames_in h data"
  let ?pure = "radisonde_cross_section geod_inv height_to_pressure_std griddata stns ?D
                start endp step"
  show ?thesis
  proof (cases "np_arange start (endp - 1) (- step)")
    case (Inl e)
    then show ?thesis
      by (simp add: radisonde_cross_section_def radisonde_cross_section_h_def run_lift)
  next
    case lv: (Inr levels)
    let ?vl = "\<lparr>base = length h, reversed = False\<rparr>"
    define vlv where "vlv = map real_of_int levels"
    let ?h1 = "h @ [Vec vlv]"
    show ?thesis
    proof (cases "getitem stns 0")
      case (Inl e)
      with lv show ?thesis
        by (simp add: radisonde_cross_section_def radisonde_cross_section_h_def run Let_def)
    next
      case s0: (Inr stn0)
      show ?thesis
      proof (cases "map_of data stn0")
        case None
        with lv s0 show ?thesis
          by (simp add: radisonde_cross_section_def radisonde_cross_section_h_def run Let_def
              run_frame_of frames_in_station)
      next
        case df0: (Some df0)
        define keys where "keys = fromkeys (take 8 (map fst df0))"
        let ?sl0 = "\<lparr>lats = [], lons = [], elev = []\<rparr>"
        let ?loop = "interpolate_keys_h data ?vl stns (length levels) ?sl0 keys ?h1"
        let ?ploop = "interpolate_keys ?D vlv stns ?sl0 keys"
        have run: "?run = and_then (interpolate_keys_h data ?vl stns (length levels) ?sl0 keys)
            (\<lambda>(sl, tmp_grid). assemble_h geod_inv height_to_pressure_std griddata ?vl
                 (length stns) sl tmp_grid) ?h1"
          unfolding keys_def vlv_def using lv s0 df0
          by (simp add: radisonde_cross_section_h_def run Let_def run_frame_of)
        have pure: "?pure = (case ?ploop of Inl e \<Rightarrow> Inl e
            | Inr (sl, tmp_grid) \<Rightarrow> assemble geod_inv height_to_pressure_std griddata vlv
                 (length stns) sl tmp_grid)"
          unfolding keys_def vlv_def using lv s0 df0
          by (simp add: radisonde_cross_section_def Let_def frames_in_station keys_in)
        have e1: "extends h ?h1" by (rule extends_append)
        have c1: "contents ?h1 ?vl = vlv" by (simp add: contents_beyond)
        have D1: "frames_in ?h1 data = ?D" using frames_in_extends [OF ab e1] .
        have "length h \<le> length ?h1" and "base ?vl < length ?h1"
          and "length levels = length (contents ?h1 ?vl)"
          by (simp_all add: contents_beyond vlv_def)
        note R = interpolate_keys_h_refines [OF ab this, of stns ?sl0 keys, unfolded D1 c1]
        obtain r h2 where loop: "?loop = (r, h2)" by (cases ?loop)
        have e2: "extends ?h1 h2"
          using interpolate_keys_h_extends [of ?h1 data ?vl stns "length levels" ?sl0 keys] loop
          by simp
        show ?thesis
        proof (cases ?ploop)
          case (Inl e)
          with R loop have "r = Inl e" by simp
          with Inl loop show ?thesis unfolding run pure by (simp add: and_then_def)
        next
          case (Inr p)
          obtain sl tg where p: "p = (sl, tg)" by (cases p)
          from R Inr p loop obtain refs where
            r: "r = Inr (sl, refs)" and hr: "holds_rows (length ?h1) h2 refs tg"
            by auto
          let ?asm = "assemble_h geod_inv height_to_pressure_std griddata ?vl (length stns) sl refs h2"
          have run2: "?run = ?asm"
            unfolding run using loop r by (simp add: and_then_def)
          have pure2: "?pure = assemble geod_inv height_to_pressure_std griddata vlv
                 (length stns) sl tg"
            unfolding pure using Inr p by simp
          have b2: "base ?vl < length h2" using extends_length [OF e2] by simp
          have c2: "contents h2 ?vl = vlv"
            using contents_extends [OF e2, of ?vl] c1 by simp
          have l2: "length h \<le> length h2" using extends_length [OF e2] by simp
          note A = assemble_h_refines [OF b2 hr, of geod_inv height_to_pressure_std griddata
              "length stns" sl, unfolded c2]
          show ?thesis
          proof (cases "assemble geod_inv height_to_pressure_std griddata vlv (length stns) sl tg")
            case (Inl e)
            with A show ?thesis unfolding run2 pure2 by simp
          next
            case (Inr cs)
            with A obtain c where "fst ?asm = Inr c" and "cross_section_in (snd ?asm) c = cs"
              and "fresh_in (length h2) (snd ?asm) c"
              by auto
            with fresh_in_mono [OF _ l2] Inr show ?thesis
              unfolding run2 pure2 by auto
          qed
        qed
      qed
    qed
  qed
qed

lemma example_frames: "frames_in example_store example_arrays = example_soundings"
  by (rule ext)
     (simp add: frames_in_def example_arrays_def frame_at_def arr_def example_store_def
       example_soundings_def sounding_def contents_def vec_def)

lemma example_arrays_below: "arrays_below (length example_store) example_arrays"
  by (simp add: arrays_below_def example_arrays_def frame_at_def arr_def example_store_def)

lemma radisonde_cross_section_h_result:
  assumes "arrays_below (length h) data"
  shows "map_sum id (cross_section_in (snd (radisonde_cross_section_h geod_inv
             height_to_pressure_std griddata stns data start endp step h)))
           (fst (radisonde_cross_section_h geod_inv height_to_pressure_std griddata stns data
             start endp step h)) =
         radisonde_cross_section geod_inv height_to_pressure_std griddata stns
           (frames_in h data) start endp step"
  using radisonde_cross_section_h_refines [OF assms, of geod_inv height_to_pressure_std griddata
      stns start endp step]
  by (auto split: sum.splits)

lemma cross_section_in_extends:
  assumes "fresh_in lo h c" and "extends h h'"
  shows "cross_section_in h' c = cross_section_in h c"
proof -
  from assms(1) have b: "base (obs_distance_h c) < length h" "base (elevation_h c) < length h"
    "x_grid_h c < length h" "p_grid_h c < length h"
    and g: "\<forall>a \<in> set (map snd (grid_data_h c)). a < length h"
    by (simp_all add: fresh_in_def list_all_iff)
  have "map (\<lambda>(key, g). (key, mat h' g)) (grid_data_h c) =
        map (\<lambda>(key, g). (key, mat h g)) (grid_data_h c)"
    using g by (intro map_cong refl) (auto simp: mat_extends [OF assms(2)])
  then show ?thesis
    using b by (simp add: cross_section_in_def contents_extends [OF assms(2)]
        mat_extends [OF assms(2)])
qed

lemma arrays_below_mono: "arrays_below n data \<Longrightarrow> n \<le> m \<Longrightarrow> arrays_below m data"
  unfolding arrays_below_def list_all_iff by fastforce

lemma example_run_returns:
  "\<exists>c. fst (radisonde_cross_section_h great_circle_distance (\<lambda>h. h) flat_griddata
            [''AAA'', ''BBB''] example_arrays 1000 900 50 example_store) = Inr c \<and>
       fresh_in (length example_store)
         (snd (radisonde_cross_section_h great_circle_distance (\<lambda>h. h) flat_griddata
            [''AAA'', ''BBB''] example_arrays 1000 900 50 example_store)) c"
proof -
  from example_returns obtain cs where
    "radisonde_cross_section great_circle_distance (\<lambda>h. h) flat_griddata
          [''AAA'', ''BBB''] example_soundings 1000 900 50 = Inr cs" ..
  with radisonde_cross_section_h_refines [OF example_arrays_below, of great_circle_distance
      "\<lambda>h. h" flat_griddata "[''AAA'', ''BBB'']" 1000 900 50]
  show ?thesis by (auto simp: example_frames)
qed

section \<open>The claims about repeated calls and about the inputs\<close>

text \<open>
  C9. The builder is deterministic. The library functions being functions of their
  arguments, two calls in a row with the same station list, the same soundings (held in
  the store) and the same grid parameters end alike: both raise the same exception, or
  both return cross-sections with identical values. The second call sees the store the
  first one left, and it does not disturb what the first one returned.
\<close>

theorem repeated_call_same_result:
  assumes "arrays_below (length h) data"
    and "radisonde_cross_section_h geod_inv height_to_pressure_std griddata stns data
           start endp step h = (r1, h1)"
    and "radisonde_cross_section_h geod_inv height_to_pressure_std griddata stns data
           start endp step h1 = (r2, h2)"
  shows "map_sum id (cross_section_in h2) r2 = map_sum id (cross_section_in h1) r1 \<and>
         map_sum id (cross_section_in h2) r1 = map_sum id (cross_section_in h1) r1"
proof -
  have e1: "extends h h1"
    using radisonde_cross_section_h_extends [of h geod_inv height_to_pressure_std griddata stns
        data start endp step] assms(2) by simp
  have e2: "extends h1 h2"
    using radisonde_cross_section_h_extends [of h1 geod_inv height_to_pressure_std griddata stns
        data start endp step] assms(3) by simp
  have ab1: "arrays_below (length h1) data"
    using arrays_below_mono [OF assms(1) extends_length [OF e1]] .
  have D: "frames_in h1 data = frames_in h data"
    using frames_in_extends [OF assms(1) e1] .
  have "map_sum id (cross_section_in h1) r1 =
      radisonde_cross_section geod_inv height_to_pressure_std griddata stns
        (frames_in h data) start endp step"
    using radisonde_cross_section_h_result [OF assms(1), of geod_inv height_to_pressure_std
        griddata stns start endp step] assms(2) by simp
  moreover have "map_sum id (cross_section_in h2) r2 =
      radisonde_cross_section geod_inv height_to_pressure_std griddata stns
        (frames_in h data) start endp step"
    using radisonde_cross_section_h_result [OF ab1, of geod_inv height_to_pressure_std
        griddata stns start endp step] assms(3) by (simp add: D)
  moreover have "map_sum id (cross_section_in h2) r1 = map_sum id (cross_section_in h1) r1"
  proof (cases r1)
    case (Inl e)
    then show ?thesis by simp
  next
    case (Inr c)
    have "fresh_in (length h) h1 c"
      using radisonde_cross_section_h_refines [OF assms(1), of geod_inv height_to_pressure_std
          griddata stns start endp step] assms(2) Inr
      by (auto split: sum.splits)
    from cross_section_in_extends [OF this e2] Inr show ?thesis by simp
  qed
  ultimately show ?thesis by simp
qed

theorem repeated_call_same_result_witness:
  "\<exists>r1 h1 r2 h2 c.
     radisonde_cross_section_h great_circle_distance (\<lambda>h. h) flat_griddata
       [''AAA'', ''BBB''] example_arrays 1000 900 50 example_store = (r1, h1) \<and>
     radisonde_cross_section_h great_circle_distance (\<lambda>h. h) flat_griddata
       [''AAA'', ''BBB''] example_arrays 1000 900 50 h1 = (r2, h2) \<and>
     r1 = Inr c \<and>
     map_sum id (cross_section_in h2) r2 = map_sum id (cross_section_in h1) r1 \<and>
     map_sum id (cross_section_in h2) r1 = map_sum id (cross_section_in h1) r1"
proof -
  let ?f = "radisonde_cross_section_h great_circle_distance (\<lambda>h. h) flat_griddata
       [''AAA'', ''BBB''] example_arrays 1000 900 50"
  obtain r1 h1 where 1: "?f example_store = (r1, h1)" by (cases "?f example_store")
  obtain r2 h2 where 2: "?f h1 = (r2, h2)" by (cases "?f h1")
  from example_run_returns 1 obtain c where c: "r1 = Inr c" by auto
  from repeated_call_same_result [OF example_arrays_below 1 2] 1 2 c
  show ?thesis by blast
qed

text \<open>
  C10. Neither function mutates its inputs. After a call of the vertical interpolator or
  of the builder, whether it returned or raised, every buffer that existed before the call
  is unchanged, so every array that existed before (the observed pressures, the variable,
  the target levels, every column of every sounding) shows the elements it showed before.
  The array the interpolator returns is a view of a buffer allocated during the call, and
  every array of a returned cross-section was allocated during the call.
\<close>

theorem inputs_unchanged_results_fresh:
  "extends h (snd (vertical_interpolate_h vcoord_data interp_var interp_levels h)) \<and>
   (\<forall>a. base a < length h \<longrightarrow>
      contents (snd (vertical_interpolate_h vcoord_data interp_var interp_levels h)) a =
        contents h a) \<and>
   (\<forall>r. fst (vertical_interpolate_h vcoord_data interp_var interp_levels h) = Inr r \<longrightarrow>
      length h \<le> base r \<and>
      base r < length (snd (vertical_interpolate_h vcoord_data interp_var interp_levels h))) \<and>
   extends h (snd (radisonde_cross_section_h geod_inv height_to_pressure_std griddata stns data
      start endp step h)) \<and>
   (\<forall>a. base a < length h \<longrightarrow>
      contents (snd (radisonde_cross_section_h geod_inv height_to_pressure_std griddata stns data
        start endp step h)) a = contents h a) \<and>
   (arrays_below (length h) data \<longrightarrow>
      frames_in (snd (radisonde_cross_section_h geod_inv height_to_pressure_std griddata stns data
        start endp step h)) data = frames_in h data \<and>
      (\<forall>cs. fst (radisonde_cross_section_h geod_inv height_to_pressure_std griddata stns data
              start endp step h) = Inr cs \<longrightarrow>
         fresh_in (length h)
           (snd (radisonde_cross_section_h geod_inv height_to_pressure_std griddata stns data
              start endp step h)) cs))"
proof -
  let ?v = "vertical_interpolate_h vcoord_data interp_var interp_levels h"
  let ?b = "radisonde_cross_section_h geod_inv height_to_pressure_std griddata stns data
      start endp step h"
  have ev: "extends h (snd ?v)" by (rule vertical_interpolate_h_extends)
  have eb: "extends h (snd ?b)" by (rule radisonde_cross_section_h_extends)
  have fv: "length h \<le> base r \<and> base r < length (snd ?v)" if "fst ?v = Inr r" for r
  proof -
    from that have "?v = (Inr r, snd ?v)" by (metis prod.collapse)
    from vertical_interpolate_h_fresh [OF this] show ?thesis by simp
  qed
  have fb: "fresh_in (length h) (snd ?b) cs"
    if "arrays_below (length h) data" and "fst ?b = Inr cs" for cs
    using radisonde_cross_section_h_refines [OF that(1), of geod_inv height_to_pressure_std
        griddata stns start endp step] that(2)
    by (auto split: sum.splits)
  show ?thesis
    using ev eb fv fb contents_extends [OF ev] contents_extends [OF eb] frames_in_extends [OF _ eb]
    by blast
qed

theorem inputs_unchanged_results_fresh_witness:
  "contents (snd (vertical_interpolate_h (arr 0) (arr 1) (arr 5) example_store)) (arr 0) = [1000, 500] \<and>
   contents (snd (vertical_interpolate_h (arr 0) (arr 1) (arr 5) example_store)) (arr 1) = [20, - 10] \<and>
   contents (snd (vertical_interpolate_h (arr 0) (arr 1) (arr 5) example_store)) (arr 5) = [950, 700, 400] \<and>
   (\<exists>r. fst (vertical_interpolate_h (arr 0) (arr 1) (arr 5) example_store) = Inr r \<and>
        15 \<le> base r) \<and>
   frames_in (snd (radisonde_cross_section_h great_circle_distance (\<lambda>h. h) flat_griddata
       [''AAA'', ''BBB''] example_arrays 1000 900 50 example_store)) example_arrays =
     example_soundings \<and>
   (\<exists>cs. fst (radisonde_cross_section_h great_circle_distance (\<lambda>h. h) flat_griddata
            [''AAA'', ''BBB''] example_arrays 1000 900 50 example_store) = Inr cs \<and>
         fresh_in 15 (snd (radisonde_cross_section_h great_circle_distance (\<lambda>h. h) flat_griddata
            [''AAA'', ''BBB''] example_arrays 1000 900 50 example_store)) cs)"
proof -
  let ?v = "vertical_interpolate_h (arr 0) (arr 1) (arr 5) example_store"
  let ?b = "radisonde_cross_section_h great_circle_distance (\<lambda>h. h) flat_griddata
            [''AAA'', ''BBB''] example_arrays 1000 900 50 example_store"
  note T = inputs_unchanged_results_fresh [of example_store "arr 0" "arr 1" "arr 5"
      great_circle_distance "\<lambda>h. h" flat_griddata "[''AAA'', ''BBB'']" example_arrays 1000 900 50]
  have len: "length example_store = 15" by (simp add: example_store_def)
  have c: "contents example_store (arr 0) = [1000, 500]" "contents example_store (arr 1) = [20, - 10]"
    "contents example_store (arr 5) = [950, 700, 400]"
    by (simp_all add: contents_def vec_def arr_def example_store_def)
  have b: "base (arr 0) < length example_store" "base (arr 1) < length example_store"
    "base (arr 5) < length example_store"
    by (simp_all add: arr_def len)
  have "\<exists>out. vertical_interpolate (contents example_store (arr 0))
      (contents example_store (arr 1)) (contents example_store (arr 5)) = Inr out"
    unfolding c by (simp add: vertical_interpolate_map)
  then obtain out where "vertical_interpolate (contents example_store (arr 0))
      (contents example_store (arr 1)) (contents example_store (arr 5)) = Inr out" ..
  with vertical_interpolate_h_refines [OF b] obtain r where r: "fst ?v = Inr r"
    by simp
  from example_run_returns obtain cs where cs: "fst ?b = Inr cs" by blast
  from T b c r cs example_arrays_below show ?thesis
    by (auto simp: len example_frames)
qed

end
